theory Spec2Isabelle
  imports Main "HOL-Library.Word" "HOL-Library.Signed_Division" "HOL-Library.Multiset"
    "HOL-Library.Sublist"
begin

unbundle bit_operations_syntax

section \<open>Machine types and failures\<close>

text \<open>
  The C++ type \<^verbatim>\<open>int\<close> is a 32-bit two's-complement integer: a \<open>32 word\<close>, read as a
  signed number by \<open>sint\<close>. Arithmetic on it wraps around. Bytes of files and strings are
  values of type \<open>char\<close> (eight bits); \<open>of_char\<close> gives the byte value in \<open>0..255\<close>.

  Everything in the sources that does not return normally is a value of \<open>error\<close>:
  the \<^verbatim>\<open>throw("Error: Key is not in map.")\<close> of \<^verbatim>\<open>hashmap::get\<close>, the two exceptions of
  \<^verbatim>\<open>std::stoi\<close>, an index outside the bucket array, a null pointer read, \<^verbatim>\<open>top()\<close> of an
  empty priority queue, and the read loop of \<^verbatim>\<open>operator>>\<close> that never leaves once the
  stream is exhausted (\<^verbatim>\<open>get()\<close> keeps returning \<^verbatim>\<open>EOF\<close>, which is neither \<^verbatim>\<open>','\<close> nor
  \<^verbatim>\<open>'}'\<close>).
\<close>

type_synonym int32 = "32 word"

datatype error =
    Thrown string
  | InvalidArgument
  | OutOfRange
  | OutOfBounds
  | NullPointer
  | EmptyQueue
  | StreamExhausted

section \<open>hashmap.cpp\<close>

subsection \<open>The hash function\<close>

text \<open>
  \<^verbatim>\<open>unsigned int temp = ((input >> 16) ^ input) * 0x45d9f3b;\<close> shifts the signed
  \<^verbatim>\<open>input\<close> arithmetically; the two later shifts are on the unsigned \<^verbatim>\<open>temp\<close>.
  \<^verbatim>\<open>hash *= -1\<close> wraps, so the one value \<open>- 2 ^ 31\<close> stays negative.
\<close>

definition hashFunction :: "int32 \<Rightarrow> int32" where
  "hashFunction input =
    (let temp = (signed_drop_bit 16 input XOR input) * 0x45d9f3b;
         temp = (drop_bit 16 temp XOR temp) * 0x45d9f3b;
         temp = drop_bit 16 temp XOR temp;
         hash = temp
     in if hash <s 0 then hash * (- 1) else hash)"

subsection \<open>The table\<close>

text \<open>
  A bucket is a singly linked list of \<^verbatim>\<open>key_val_pair\<close>: a list of pairs in chain order,
  \<open>[]\<close> for \<^verbatim>\<open>nullptr\<close>. \<^verbatim>\<open>buckets\<close> is the array of bucket heads.
\<close>

type_synonym key_val_pair = "int32 \<times> int32"

record hashmap =
  buckets :: "key_val_pair list list"
  nBuckets :: int32
  nElems :: int32

definition createBucketArray :: "int32 \<Rightarrow> key_val_pair list list" where
  "createBucketArray n = replicate (nat (sint n)) []"

definition hashmap_init :: hashmap where
  "hashmap_init = \<lparr>buckets = createBucketArray 10, nBuckets = 10, nElems = 0\<rparr>"

text \<open>
  \<^verbatim>\<open>buckets[bucketChoice % nBuckets]\<close>: the remainder of C++ truncates towards zero
  (\<open>smod\<close>); an index outside the array is \<open>OutOfBounds\<close>.
\<close>

definition bucketIndex :: "hashmap \<Rightarrow> int32 \<Rightarrow> error + nat" where
  "bucketIndex m key =
    (let bucketChoice = hashFunction key;
         i = sint bucketChoice smod sint (nBuckets m)
     in if 0 \<le> i \<and> i < int (length (buckets m)) then Inr (nat i) else Inl OutOfBounds)"

text \<open>
  The traversal of \<^verbatim>\<open>put\<close>: the first node with the key gets the new value and
  \<^verbatim>\<open>flag\<close> is set; when the chain ends without a match the new node is linked after
  the last one.
\<close>

fun put_chain :: "key_val_pair list \<Rightarrow> int32 \<Rightarrow> int32 \<Rightarrow> key_val_pair list \<times> bool" where
  "put_chain [] key val = ([(key, val)], False)"
| "put_chain ((k, v) # rest) key val =
     (if k = key then ((k, val) # rest, True)
      else (case put_chain rest key val of (rest', flag) \<Rightarrow> ((k, v) # rest', flag)))"

definition put :: "hashmap \<Rightarrow> int32 \<Rightarrow> int32 \<Rightarrow> error + hashmap" where
  "put m key val =
    (case bucketIndex m key of
       Inl e \<Rightarrow> Inl e
     | Inr i \<Rightarrow>
         if buckets m ! i = [] then
           Inr (m\<lparr>buckets := (buckets m)[i := [(key, val)]], nElems := nElems m + 1\<rparr>)
         else
           (case put_chain (buckets m ! i) key val of
              (chain, flag) \<Rightarrow>
                Inr (m\<lparr>buckets := (buckets m)[i := chain],
                       nElems := (if flag then nElems m else nElems m + 1)\<rparr>)))"

text \<open>
  \<^verbatim>\<open>get\<close> throws only when the bucket is empty. In a non-empty bucket the loop returns
  the value of the first node with the key, and falls through to
  \<^verbatim>\<open>return saveValue;\<close> (still \<open>0\<close>) when no node has it.
\<close>

fun get_chain :: "key_val_pair list \<Rightarrow> int32 \<Rightarrow> int32 option" where
  "get_chain [] key = None"
| "get_chain ((k, v) # rest) key = (if k = key then Some v else get_chain rest key)"

definition get :: "hashmap \<Rightarrow> int32 \<Rightarrow> error + int32" where
  "get m key =
    (case bucketIndex m key of
       Inl e \<Rightarrow> Inl e
     | Inr i \<Rightarrow>
         (let saveValue = 0 in
          if buckets m ! i = [] then Inl (Thrown ''Error: Key is not in map.'')
          else (case get_chain (buckets m ! i) key of
                  Some v \<Rightarrow> Inr v
                | None \<Rightarrow> Inr saveValue)))"

fun containsKey_chain :: "key_val_pair list \<Rightarrow> int32 \<Rightarrow> bool" where
  "containsKey_chain [] key = False"
| "containsKey_chain ((k, v) # rest) key = (if k = key then True else containsKey_chain rest key)"

definition containsKey :: "hashmap \<Rightarrow> int32 \<Rightarrow> error + bool" where
  "containsKey m key =
    (case bucketIndex m key of
       Inl e \<Rightarrow> Inl e
     | Inr i \<Rightarrow> Inr (containsKey_chain (buckets m ! i) key))"

definition keys :: "hashmap \<Rightarrow> int32 list" where
  "keys m = concat (map (\<lambda>i. map fst (buckets m ! i)) [0..<nat (sint (nBuckets m))])"

definition size_hashmap :: "hashmap \<Rightarrow> int32" where
  "size_hashmap m = nElems m"

text \<open>A construction history: the \<^verbatim>\<open>put\<close> calls made on a table, in order.\<close>

fun put_all :: "hashmap \<Rightarrow> key_val_pair list \<Rightarrow> error + hashmap" where
  "put_all m [] = Inr m"
| "put_all m ((key, val) # rest) =
     (case put m key val of Inl e \<Rightarrow> Inl e | Inr m' \<Rightarrow> put_all m' rest)"


subsection \<open>Reading and writing integers and characters\<close>

text \<open>
  The streams of the C++ library are not part of the repository. What the program uses of
  them is written out here: \<^verbatim>\<open>out << n\<close> for an integer prints its decimal digits with a
  leading \<^verbatim>\<open>-\<close> when negative; \<^verbatim>\<open>std::stoi\<close> skips white space, takes an optional sign
  and the longest run of digits, throws \<^verbatim>\<open>invalid_argument\<close> when there is no digit and
  \<^verbatim>\<open>out_of_range\<close> when the number does not fit an \<^verbatim>\<open>int\<close>, and ignores what follows
  the digits.
\<close>

fun digits_of :: "nat \<Rightarrow> string" where
  "digits_of n =
     (if n < 10 then [char_of (48 + n)] else digits_of (n div 10) @ [char_of (48 + n mod 10)])"

declare digits_of.simps [simp del]

definition show_int :: "int32 \<Rightarrow> string" where
  "show_int n = (if n <s 0 then CHR ''-'' # digits_of (nat (- sint n)) else digits_of (nat (sint n)))"

definition isspace :: "char \<Rightarrow> bool" where
  "isspace c = (c = CHR '' '' \<or> (9 \<le> (of_char c :: nat) \<and> (of_char c :: nat) \<le> 13))"

definition isdigit :: "char \<Rightarrow> bool" where
  "isdigit c = (48 \<le> (of_char c :: nat) \<and> (of_char c :: nat) \<le> 57)"

definition digits_value :: "string \<Rightarrow> nat" where
  "digits_value ds = foldl (\<lambda>acc c. 10 * acc + (of_char c - 48)) 0 ds"

definition stoi :: "string \<Rightarrow> error + int32" where
  "stoi str =
    (let s1 = dropWhile isspace str;
         negative = (s1 \<noteq> [] \<and> hd s1 = CHR ''-'');
         s2 = (if s1 \<noteq> [] \<and> (hd s1 = CHR ''-'' \<or> hd s1 = CHR ''+'') then tl s1 else s1);
         ds = takeWhile isdigit s2
     in if ds = [] then Inl InvalidArgument
        else (let v = (if negative then - int (digits_value ds) else int (digits_value ds))
              in if v < - 2147483648 \<or> 2147483647 < v then Inl OutOfRange
                 else Inr (word_of_int v)))"

text \<open>
  An input stream, as \<^verbatim>\<open>ifbitstream\<close> has it: the bytes not yet read, the number of
  bytes read (for \<^verbatim>\<open>tellg()\<close>), the two state bits the program depends on, and the three
  fields of \<^verbatim>\<open>ibitstream\<close>. The field \<^verbatim>\<open>fake\<close> is left out: the constructor sets it to
  \<^verbatim>\<open>false\<close> and nothing in the repository calls \<^verbatim>\<open>setFake\<close>.
\<close>

record ibitstream =
  rest :: string
  gpos :: nat
  eofbit :: bool
  failbit :: bool
  lastTell :: int
  curByte :: int
  pos :: int32

text \<open>Opening a file that does not exist (\<open>None\<close>) leaves the stream in the fail state.\<close>

definition ifbitstream_open :: "string option \<Rightarrow> ibitstream" where
  "ifbitstream_open file =
     \<lparr>rest = (case file of None \<Rightarrow> [] | Some bytes \<Rightarrow> bytes), gpos = 0, eofbit = False,
      failbit = (file = None), lastTell = 0, curByte = 0, pos = 8\<rparr>"

text \<open>
  \<^verbatim>\<open>istream::get()\<close>: on a stream that is no longer good it sets \<^verbatim>\<open>failbit\<close> and returns
  \<^verbatim>\<open>EOF\<close> (\<open>- 1\<close>); at the end of the data it sets \<^verbatim>\<open>eofbit\<close> and \<^verbatim>\<open>failbit\<close> and
  returns \<^verbatim>\<open>EOF\<close>; otherwise it returns the next byte.
\<close>

definition stream_get :: "ibitstream \<Rightarrow> int \<times> ibitstream" where
  "stream_get inp =
     (if eofbit inp \<or> failbit inp then (- 1, inp\<lparr>failbit := True\<rparr>)
      else (case rest inp of
              [] \<Rightarrow> (- 1, inp\<lparr>eofbit := True, failbit := True\<rparr>)
            | c # cs \<Rightarrow> (int (of_char c), inp\<lparr>rest := cs, gpos := gpos inp + 1\<rparr>)))"

definition tellg :: "ibitstream \<Rightarrow> int" where
  "tellg inp = (if failbit inp then - 1 else int (gpos inp))"

definition eof :: "ibitstream \<Rightarrow> bool" where
  "eof inp = eofbit inp"

subsection \<open>Writing a table: \<^verbatim>\<open>operator<<\<close>\<close>

text \<open>
  The loop over \<^verbatim>\<open>keys\<close> with its index \<^verbatim>\<open>i\<close>: the separator is written after every
  entry but the last one (\<^verbatim>\<open>i < keys.size() - 1\<close>). The result is the text appended to
  the stream.
\<close>

fun operator_out_loop :: "hashmap \<Rightarrow> int32 list \<Rightarrow> error + string" where
  "operator_out_loop myMap [] = Inr []"
| "operator_out_loop myMap (key # others) =
     (case get myMap key of
        Inl e \<Rightarrow> Inl e
      | Inr val \<Rightarrow>
          (case operator_out_loop myMap others of
             Inl e \<Rightarrow> Inl e
           | Inr text \<Rightarrow>
               Inr (show_int key @ '':'' @ show_int val @ (if others \<noteq> [] then '', '' else [])
                    @ text)))"

definition operator_out :: "string \<Rightarrow> hashmap \<Rightarrow> error + string" where
  "operator_out out myMap =
     (case operator_out_loop myMap (keys myMap) of
        Inl e \<Rightarrow> Inl e
      | Inr text \<Rightarrow> Inr (out @ ''{'' @ text @ ''}''))"

subsection \<open>Reading a table: \<^verbatim>\<open>operator>>\<close>\<close>

text \<open>
  The inner loop collects characters up to \<^verbatim>\<open>','\<close> (44) or \<^verbatim>\<open>'}'\<close> (125). Once
  \<^verbatim>\<open>get()\<close> has returned \<^verbatim>\<open>EOF\<close> the stream is not good any more, every later
  \<^verbatim>\<open>get()\<close> returns \<^verbatim>\<open>EOF\<close> again and the loop never ends: \<open>StreamExhausted\<close>.
\<close>

definition read_measure :: "int \<Rightarrow> ibitstream \<Rightarrow> nat" where
  "read_measure nextChar inp =
     (if eofbit inp \<or> failbit inp then (if nextChar = - 1 then 0 else 1)
      else 2 + 2 * length (rest inp))"

function read_input :: "int \<Rightarrow> string \<Rightarrow> ibitstream \<Rightarrow> error + (int \<times> string \<times> ibitstream)" where
  "read_input nextChar nextInput inp =
     (if nextChar \<noteq> 44 \<and> nextChar \<noteq> 125 then
        (if nextChar = - 1 \<and> (eofbit inp \<or> failbit inp) then Inl StreamExhausted
         else (case stream_get inp of
                 (c, inp') \<Rightarrow> read_input c (nextInput @ [char_of nextChar]) inp'))
      else Inr (nextChar, nextInput, inp))"
  by pat_completeness auto
termination
  by (relation "measure (\<lambda>(nextChar, nextInput, inp). read_measure nextChar inp)")
     (auto simp add: read_measure_def stream_get_def split: if_splits list.splits)

declare read_input.simps [simp del]

lemma read_input_measure:
  "read_input nextChar nextInput inp = Inr (c, text, inp') \<Longrightarrow>
     read_measure c inp' \<le> read_measure nextChar inp"
proof (induction nextChar nextInput inp rule: read_input.induct)
  case (1 nextChar nextInput inp)
  note unfold = read_input.simps [of nextChar nextInput inp]
  show ?case
  proof (cases "nextChar \<noteq> 44 \<and> nextChar \<noteq> 125")
    case False
    with "1.prems" unfold show ?thesis by auto
  next
    case True
    note cont = this
    show ?thesis
    proof (cases "nextChar = - 1 \<and> (eofbit inp \<or> failbit inp)")
      case True
      with cont "1.prems" unfold show ?thesis by auto
    next
      case False
      obtain d inp1 where g: "stream_get inp = (d, inp1)"
        by (cases "stream_get inp")
      with cont False "1.prems" unfold
      have r: "read_input d (nextInput @ [char_of nextChar]) inp1 = Inr (c, text, inp')"
        by auto
      have "read_measure c inp' \<le> read_measure d inp1"
        using "1.IH" [OF cont False g [symmetric] r] .
      moreover have "read_measure d inp1 \<le> read_measure nextChar inp"
        using g False
        by (auto simp add: read_measure_def stream_get_def split: if_splits list.splits)
      ultimately show ?thesis by simp
    qed
  qed
qed

text \<open>
  \<^verbatim>\<open>nextInput.find(":")\<close>, and the two \<^verbatim>\<open>substr\<close> calls of the source. Without a colon
  \<^verbatim>\<open>pos\<close> is \<^verbatim>\<open>npos\<close> and \<^verbatim>\<open>pos+1\<close> wraps to \<open>0\<close>. C++ leaves open which of the two
  arguments of \<^verbatim>\<open>put\<close> is computed first; g++ computes the last one first, so the value is
  converted before the key, and an entry whose two fields are both bad fails with the
  failure of the value.
\<close>

definition find_colon :: "string \<Rightarrow> nat option" where
  "find_colon str =
     (if CHR '':'' \<in> set str then Some (length (takeWhile (\<lambda>c. c \<noteq> CHR '':'') str)) else None)"

definition put_input :: "hashmap \<Rightarrow> string \<Rightarrow> error + hashmap" where
  "put_input myMap nextInput =
     (let pos = find_colon nextInput;
          key_str = (case pos of None \<Rightarrow> nextInput | Some p \<Rightarrow> take p nextInput);
          val_str = take (length nextInput - 1)
                      (case pos of None \<Rightarrow> nextInput | Some p \<Rightarrow> drop (p + 1) nextInput)
      in case stoi val_str of
           Inl e \<Rightarrow> Inl e
         | Inr val \<Rightarrow> (case stoi key_str of Inl e \<Rightarrow> Inl e | Inr key \<Rightarrow> put myMap key val))"

function operator_in_loop :: "int \<Rightarrow> ibitstream \<Rightarrow> hashmap \<Rightarrow> error + (ibitstream \<times> hashmap)" where
  "operator_in_loop nextChar inp myMap =
     (case read_input nextChar [] inp of
        Inl e \<Rightarrow> Inl e
      | Inr (c, nextInput, inp1) \<Rightarrow>
          (case (if nextInput \<noteq> [] then put_input myMap nextInput else Inr myMap) of
             Inl e \<Rightarrow> Inl e
           | Inr myMap' \<Rightarrow>
               if c = 44 then
                 operator_in_loop (fst (stream_get (snd (stream_get inp1))))
                   (snd (stream_get (snd (stream_get inp1)))) myMap'
               else Inr (inp1, myMap')))"
  by pat_completeness auto
termination
proof (relation "measure (\<lambda>(nextChar, inp, myMap). read_measure nextChar inp)", goal_cases)
  case 1
  show ?case by simp
next
  case (2 nextChar inp myMap x c y nextInput inp1 myMap')
  from 2 have "read_input nextChar [] inp = Inr (c, nextInput, inp1)" by simp
  then have "read_measure c inp1 \<le> read_measure nextChar inp"
    by (rule read_input_measure)
  moreover have "read_measure (fst (stream_get (snd (stream_get inp1))))
      (snd (stream_get (snd (stream_get inp1)))) < read_measure 44 inp1"
    by (auto simp add: read_measure_def stream_get_def split: if_splits list.splits)
  ultimately show ?case using \<open>c = 44\<close> by simp
qed

declare operator_in_loop.simps [simp del]

definition operator_in :: "ibitstream \<Rightarrow> hashmap \<Rightarrow> error + (ibitstream \<times> hashmap)" where
  "operator_in inp myMap =
     (case stream_get inp of
        (first, inp1) \<Rightarrow>
          (case stream_get inp1 of
             (nextChar, inp2) \<Rightarrow> operator_in_loop nextChar inp2 myMap))"

section \<open>bitstream.h\<close>

definition PSEUDO_EOF :: int32 where
  "PSEUDO_EOF = 256"

definition NOT_A_CHAR :: int32 where
  "NOT_A_CHAR = 257"

definition GetNthBit :: "int32 \<Rightarrow> int \<Rightarrow> int" where
  "GetNthBit n fromByte = (if fromByte AND push_bit (unat n) 1 \<noteq> 0 then 1 else 0)"

definition SetNthBit :: "int32 \<Rightarrow> int \<Rightarrow> int" where
  "SetNthBit n inByte = inByte OR push_bit (unat n) 1"

text \<open>
  \<^verbatim>\<open>ibitstream::readBit\<close>: a new byte is fetched when the eight bits of \<^verbatim>\<open>curByte\<close> are
  used up or when something else has moved the stream; \<^verbatim>\<open>EOF\<close> is returned when there
  is no byte left.
\<close>

definition readBit :: "ibitstream \<Rightarrow> int \<times> ibitstream" where
  "readBit inp =
     (if lastTell inp \<noteq> tellg inp \<or> pos inp = 8 then
        (case stream_get inp of
           (c, inp1) \<Rightarrow>
             if c = - 1 then (- 1, inp1\<lparr>curByte := c\<rparr>)
             else (GetNthBit 0 c, inp1\<lparr>curByte := c, pos := 0 + 1, lastTell := tellg inp1\<rparr>))
      else (GetNthBit (pos inp) (curByte inp), inp\<lparr>pos := pos inp + 1\<rparr>))"

text \<open>
  An output stream: the bytes written so far (the put position is always at the end when
  \<^verbatim>\<open>writeBit\<close> is entered), and the three fields of \<^verbatim>\<open>obitstream\<close>.
\<close>

record obitstream =
  written :: string
  lastTell_out :: int
  curByte_out :: int
  pos_out :: int32

definition ofbitstream_open :: obitstream where
  "ofbitstream_open = \<lparr>written = [], lastTell_out = 0, curByte_out = 0, pos_out = 8\<rparr>"

definition tellp :: "obitstream \<Rightarrow> int" where
  "tellp out = int (length (written out))"

definition stream_write :: "obitstream \<Rightarrow> string \<Rightarrow> obitstream" where
  "stream_write out text = out\<lparr>written := written out @ text\<rparr>"

text \<open>
  \<^verbatim>\<open>obitstream::writeBit\<close>: the byte under construction is written when its first bit
  arrives and written again, over itself (\<^verbatim>\<open>seekp(-1, cur)\<close>), each time a \<open>1\<close> is added.
\<close>

definition writeBit :: "obitstream \<Rightarrow> int \<Rightarrow> obitstream" where
  "writeBit out b =
     (let out1 = (if lastTell_out out \<noteq> tellp out \<or> pos_out out = 8
                  then out\<lparr>curByte_out := 0, pos_out := 0\<rparr> else out);
          out2 = (if b \<noteq> 0 then out1\<lparr>curByte_out := SetNthBit (pos_out out1) (curByte_out out1)\<rparr>
                  else out1);
          out3 = (if pos_out out2 = 0 \<or> b \<noteq> 0 then
                    out2\<lparr>written :=
                        (if pos_out out2 \<noteq> 0 then butlast (written out2) else written out2)
                        @ [char_of (curByte_out out2)]\<rparr>
                  else out2);
          out4 = out3\<lparr>pos_out := pos_out out3 + 1\<rparr>
      in out4\<lparr>lastTell_out := tellp out4\<rparr>)"

section \<open>util.h\<close>

text \<open>
  Whether the plain \<^verbatim>\<open>char\<close> of the compiler is signed is a parameter \<open>signed_char\<close> of
  every function that converts a \<^verbatim>\<open>char\<close> to \<^verbatim>\<open>int\<close>: with a signed \<^verbatim>\<open>char\<close> (g++ on
  x86) the bytes from 128 on are the negative numbers \<open>- 128 .. - 1\<close>.
\<close>

definition int_of_char :: "bool \<Rightarrow> char \<Rightarrow> int32" where
  "int_of_char signed_char c =
     (if signed_char \<and> 128 \<le> (of_char c :: nat) then of_nat (of_char c) - 256
      else of_nat (of_char c))"

definition char_of_int :: "int32 \<Rightarrow> char" where
  "char_of_int n = char_of (unat n)"

subsection \<open>The tree\<close>

text \<open>A \<^verbatim>\<open>HuffmanNode*\<close> is a \<open>HuffmanNode option\<close>, \<open>None\<close> for \<^verbatim>\<open>nullptr\<close>.\<close>

datatype HuffmanNode =
  HuffmanNode (character: int32) (count: int32) (zero: "HuffmanNode option")
    (one: "HuffmanNode option")

definition prioritize :: "HuffmanNode \<Rightarrow> HuffmanNode \<Rightarrow> bool" where
  "prioritize lhs rhs = (count rhs <s count lhs)"

subsection \<open>The frequency map\<close>

definition char_to_hash :: "bool \<Rightarrow> char \<Rightarrow> hashmap \<Rightarrow> error + hashmap" where
  "char_to_hash signed_char c h =
     (case containsKey h (int_of_char signed_char c) of
        Inl e \<Rightarrow> Inl e
      | Inr True \<Rightarrow>
          (case get h (int_of_char signed_char c) of
             Inl e \<Rightarrow> Inl e
           | Inr n \<Rightarrow> put h (int_of_char signed_char c) (n + 1))
      | Inr False \<Rightarrow> put h (int_of_char signed_char c) 1)"

fun char_to_hash_all :: "bool \<Rightarrow> string \<Rightarrow> hashmap \<Rightarrow> error + hashmap" where
  "char_to_hash_all signed_char [] h = Inr h"
| "char_to_hash_all signed_char (c # cs) h =
     (case char_to_hash signed_char c h of
        Inl e \<Rightarrow> Inl e
      | Inr h' \<Rightarrow> char_to_hash_all signed_char cs h')"

text \<open>
  The files are a map from names to contents. \<^verbatim>\<open>while(fs.get(c))\<close> runs over the bytes of
  the file, and over nothing when the file cannot be opened.
\<close>

type_synonym files = "string \<Rightarrow> string option"

definition file_bytes :: "files \<Rightarrow> string \<Rightarrow> string" where
  "file_bytes fs filename = (case fs filename of None \<Rightarrow> [] | Some bytes \<Rightarrow> bytes)"

definition buildFrequencyMap :: "bool \<Rightarrow> files \<Rightarrow> string \<Rightarrow> bool \<Rightarrow> hashmap \<Rightarrow> error + hashmap" where
  "buildFrequencyMap signed_char fs filename isFile freq =
     (case char_to_hash_all signed_char (if isFile then file_bytes fs filename else filename) freq of
        Inl e \<Rightarrow> Inl e
      | Inr freq' \<Rightarrow> put freq' 256 1)"

subsection \<open>The priority queue\<close>

text \<open>
  \<^verbatim>\<open>std::priority_queue\<close> with the comparison \<^verbatim>\<open>prioritize\<close> gives at \<^verbatim>\<open>top()\<close> a node
  that no other node of the queue beats: one of least \<^verbatim>\<open>count\<close>. Which one among several
  of the same count is up to the library's heap; here it is the parameter \<open>tie\<close>, a choice
  among the candidates that may depend on the whole queue. The queue is the list of its
  nodes in the order they were pushed.
\<close>

type_synonym priority_queue = "HuffmanNode list"
type_synonym tiebreak = "HuffmanNode list \<Rightarrow> nat"

definition candidates :: "priority_queue \<Rightarrow> HuffmanNode list" where
  "candidates pq = filter (\<lambda>x. list_all (\<lambda>y. \<not> prioritize x y) pq) pq"

definition pq_top :: "tiebreak \<Rightarrow> priority_queue \<Rightarrow> error + HuffmanNode" where
  "pq_top tie pq =
     (if pq = [] then Inl EmptyQueue
      else Inr (candidates pq ! (tie pq mod length (candidates pq))))"

definition pq_pop :: "tiebreak \<Rightarrow> priority_queue \<Rightarrow> priority_queue" where
  "pq_pop tie pq = (case pq_top tie pq of Inl e \<Rightarrow> pq | Inr x \<Rightarrow> remove1 x pq)"

definition pq_push :: "priority_queue \<Rightarrow> HuffmanNode \<Rightarrow> priority_queue" where
  "pq_push pq x = pq @ [x]"

lemma candidates_exist: "pq \<noteq> [] \<Longrightarrow> \<exists>x \<in> set pq. \<forall>y \<in> set pq. \<not> prioritize x y"
proof (induction pq)
  case Nil
  then show ?case by simp
next
  case (Cons a pq)
  show ?case
  proof (cases "pq = []")
    case True
    then show ?thesis by (simp add: prioritize_def word_sless_alt)
  next
    case False
    with Cons.IH obtain m where m: "m \<in> set pq" "\<forall>y \<in> set pq. \<not> prioritize m y"
      by blast
    show ?thesis
    proof (cases "prioritize m a")
      case True
      with m have "\<forall>y \<in> set (a # pq). \<not> prioritize a y"
        by (auto simp add: prioritize_def word_sless_alt)
      then show ?thesis by (meson list.set_intros(1))
    next
      case False
      with m have "\<forall>y \<in> set (a # pq). \<not> prioritize m y" by simp
      with m(1) show ?thesis by (meson list.set_intros(2))
    qed
  qed
qed

lemma candidates_nonempty: "pq \<noteq> [] \<Longrightarrow> candidates pq \<noteq> []"
  using candidates_exist [of pq]
  by (auto simp add: candidates_def filter_empty_conv list_all_iff)

lemma pq_top_in_queue: "pq_top tie pq = Inr x \<Longrightarrow> x \<in> set pq"
proof -
  assume t: "pq_top tie pq = Inr x"
  then have ne: "pq \<noteq> []" by (auto simp add: pq_top_def split: if_splits)
  then have "tie pq mod length (candidates pq) < length (candidates pq)"
    using candidates_nonempty [of pq] by simp
  then have "candidates pq ! (tie pq mod length (candidates pq)) \<in> set (candidates pq)"
    by (rule nth_mem)
  with t ne show ?thesis by (auto simp add: pq_top_def candidates_def)
qed

lemma length_pq_pop: "pq \<noteq> [] \<Longrightarrow> Suc (length (pq_pop tie pq)) = length pq"
proof -
  assume ne: "pq \<noteq> []"
  then obtain x where t: "pq_top tie pq = Inr x" by (auto simp add: pq_top_def)
  then have "x \<in> set pq" by (rule pq_top_in_queue)
  then have "Suc (length (remove1 x pq)) = length pq"
    using ne by (simp add: length_remove1 Suc_pred)
  with t show ?thesis by (simp add: pq_pop_def)
qed

text \<open>
  \<^verbatim>\<open>build_htree\<close>: the two nodes at the top become the \<^verbatim>\<open>zero\<close> and the \<^verbatim>\<open>one\<close>
  child of a new node with \<^verbatim>\<open>character = 257\<close>.
\<close>

function build_htree :: "tiebreak \<Rightarrow> priority_queue \<Rightarrow> error + priority_queue" where
  "build_htree tie pq =
     (if 1 < length pq then
        (case pq_top tie pq of
           Inl e \<Rightarrow> Inl e
         | Inr first \<Rightarrow>
             (case pq_top tie (pq_pop tie pq) of
                Inl e \<Rightarrow> Inl e
              | Inr second \<Rightarrow>
                  build_htree tie
                    (pq_push (pq_pop tie (pq_pop tie pq))
                       (HuffmanNode 257 (count first + count second) (Some first) (Some second)))))
      else Inr pq)"
  by pat_completeness auto
termination
proof (relation "measure (\<lambda>(tie, pq). length pq)", goal_cases)
  case 1
  show ?case by simp
next
  case (2 tie pq first second)
  then have "pq \<noteq> []" by auto
  then have a: "Suc (length (pq_pop tie pq)) = length pq" by (rule length_pq_pop)
  with 2 have "pq_pop tie pq \<noteq> []" by auto
  then have "Suc (length (pq_pop tie (pq_pop tie pq))) = length (pq_pop tie pq)"
    by (rule length_pq_pop)
  with a show ?case by (simp add: pq_push_def)
qed

declare build_htree.simps [simp del]

fun push_leaves :: "hashmap \<Rightarrow> int32 list \<Rightarrow> priority_queue \<Rightarrow> error + priority_queue" where
  "push_leaves freq [] pq = Inr pq"
| "push_leaves freq (e # k) pq =
     (case get freq e of
        Inl err \<Rightarrow> Inl err
      | Inr n \<Rightarrow> push_leaves freq k (pq_push pq (HuffmanNode e n None None)))"

definition buildEncodingTree :: "tiebreak \<Rightarrow> hashmap \<Rightarrow> error + HuffmanNode" where
  "buildEncodingTree tie freq =
     (case push_leaves freq (keys freq) [] of
        Inl e \<Rightarrow> Inl e
      | Inr pq \<Rightarrow> (case build_htree tie pq of Inl e \<Rightarrow> Inl e | Inr pq' \<Rightarrow> pq_top tie pq'))"

subsection \<open>The encoding map\<close>

text \<open>
  \<^verbatim>\<open>hashmapE\<close> is \<^verbatim>\<open>unordered_map<int, string>\<close>. \<^verbatim>\<open>insert\<close> leaves an existing entry
  alone; \<^verbatim>\<open>operator[]\<close> adds an empty string for a key that is not there.
\<close>

type_synonym hashmapE = "int32 \<Rightarrow> string option"

definition insert_E :: "hashmapE \<Rightarrow> int32 \<Rightarrow> string \<Rightarrow> hashmapE" where
  "insert_E encodingMap key str = (if encodingMap key = None then encodingMap(key \<mapsto> str) else encodingMap)"

definition index_E :: "hashmapE \<Rightarrow> int32 \<Rightarrow> string \<times> hashmapE" where
  "index_E encodingMap key =
     (case encodingMap key of None \<Rightarrow> ([], encodingMap(key \<mapsto> [])) | Some str \<Rightarrow> (str, encodingMap))"

fun buildEncodingMap_rec :: "HuffmanNode \<Rightarrow> hashmapE \<Rightarrow> string \<Rightarrow> hashmapE" where
  "buildEncodingMap_rec (HuffmanNode c n z w) encodingMap str =
     (let m1 = (case z of None \<Rightarrow> encodingMap
                | Some node0 \<Rightarrow> buildEncodingMap_rec node0 encodingMap (str @ ''0''));
          m2 = (case w of None \<Rightarrow> m1
                | Some node1 \<Rightarrow> buildEncodingMap_rec node1 m1 (str @ ''1''))
      in if c \<noteq> 257 then insert_E m2 c str else m2)"

definition buildEncodingMap :: "HuffmanNode \<Rightarrow> hashmapE" where
  "buildEncodingMap tree = buildEncodingMap_rec tree Map.empty []"

subsection \<open>Encoding and decoding\<close>

fun encode_loop :: "bool \<Rightarrow> string \<Rightarrow> hashmapE \<Rightarrow> string \<Rightarrow> int32 \<Rightarrow> string \<times> hashmapE \<times> int32" where
  "encode_loop signed_char [] encodingMap encoded sz = (encoded, encodingMap, sz)"
| "encode_loop signed_char (c # input) encodingMap encoded sz =
     (case index_E encodingMap (int_of_char signed_char c) of
        (code, m1) \<Rightarrow>
          (case index_E m1 (int_of_char signed_char c) of
             (code', m2) \<Rightarrow>
               encode_loop signed_char input m2 (encoded @ code) (sz + of_nat (length code'))))"

definition write_bits :: "obitstream \<Rightarrow> string \<Rightarrow> obitstream" where
  "write_bits output encoded =
     foldl (\<lambda>out c. if c = CHR ''0'' then writeBit out 0 else writeBit out 1) output encoded"

definition encode ::
  "bool \<Rightarrow> string \<Rightarrow> hashmapE \<Rightarrow> obitstream \<Rightarrow> int32 \<Rightarrow> bool \<Rightarrow> string \<times> hashmapE \<times> obitstream \<times> int32" where
  "encode signed_char input encodingMap output sz makeFile =
     (case encode_loop signed_char input encodingMap [] sz of
        (encoded, m1, sz1) \<Rightarrow>
          (case index_E m1 256 of
             (code, m2) \<Rightarrow>
               (case index_E m2 256 of
                  (code', m3) \<Rightarrow>
                    (encoded @ code, m3,
                     (if makeFile then write_bits output (encoded @ code) else output),
                     sz1 + of_nat (length code')))))"

text \<open>
  The loop of \<^verbatim>\<open>decode\<close>. On a stream whose \<^verbatim>\<open>failbit\<close> is set and whose \<^verbatim>\<open>eofbit\<close> is
  not, \<^verbatim>\<open>readBit\<close> returns \<^verbatim>\<open>EOF\<close> for ever and the loop may never end: the result is an
  \<open>option\<close>, \<open>None\<close> for a run that does not return.
\<close>

partial_function (option) decode_loop ::
  "HuffmanNode \<Rightarrow> ibitstream \<Rightarrow> HuffmanNode option \<Rightarrow> string \<Rightarrow> string
     \<Rightarrow> (error + string \<times> ibitstream \<times> string) option" where
  [code]: "decode_loop encodingTree input node decoded output =
     (if \<not> eof input then
        (case node of
           None \<Rightarrow> Some (Inl NullPointer)
         | Some n \<Rightarrow>
             if character n \<noteq> 257 \<and> character n = 256 then Some (Inr (decoded, input, output))
             else
               decode_loop encodingTree (snd (readBit input))
                 (let node1 = (if character n \<noteq> 257 then encodingTree else n)
                  in if fst (readBit input) = 0 then zero node1 else one node1)
                 (if character n \<noteq> 257 then decoded @ [char_of_int (character n)] else decoded)
                 (if character n \<noteq> 257 then output @ [char_of_int (character n)] else output))
      else Some (Inr (decoded, input, output)))"

definition decode ::
  "ibitstream \<Rightarrow> HuffmanNode \<Rightarrow> string \<Rightarrow> (error + string \<times> ibitstream \<times> string) option" where
  "decode input encodingTree output = decode_loop encodingTree input (Some encodingTree) [] output"

subsection \<open>Whole files\<close>

text \<open>
  \<^verbatim>\<open>compress\<close> returns the bit pattern and leaves the container in the file
  \<^verbatim>\<open>filename + ".huf"\<close>.
\<close>

definition compress :: "bool \<Rightarrow> tiebreak \<Rightarrow> files \<Rightarrow> string \<Rightarrow> error + string \<times> files" where
  "compress signed_char tie fs filename =
     (case buildFrequencyMap signed_char fs filename True hashmap_init of
        Inl e \<Rightarrow> Inl e
      | Inr frequency \<Rightarrow>
          (case buildEncodingTree tie frequency of
             Inl e \<Rightarrow> Inl e
           | Inr encodingTree \<Rightarrow>
               (let encodingMap = buildEncodingMap encodingTree;
                    output = ofbitstream_open;
                    fs1 = fs(filename @ ''.huf'' \<mapsto> [])
                in case operator_out (written output) frequency of
                     Inl e \<Rightarrow> Inl e
                   | Inr header \<Rightarrow>
                       (case encode signed_char (file_bytes fs1 filename) encodingMap
                               (output\<lparr>written := header\<rparr>) 0 True of
                          (encoded, m, output', sz) \<Rightarrow>
                            Inr (encoded, fs1(filename @ ''.huf'' \<mapsto> written output'))))))"

text \<open>
  \<^verbatim>\<open>decompress\<close> opens the container, then creates the output file
  (\<^verbatim>\<open>filename.substr(0, filename.size()-8) + "_unc.txt"\<close>, where the unsigned subtraction
  wraps for a name shorter than eight characters and \<^verbatim>\<open>substr\<close> then keeps the whole
  name), then reads.
\<close>

definition decompress :: "tiebreak \<Rightarrow> files \<Rightarrow> string \<Rightarrow> (error + string \<times> files) option" where
  "decompress tie fs filename =
     (let unc = take (if 8 \<le> length filename then length filename - 8 else length filename) filename
                @ ''_unc.txt'';
          fs1 = fs(unc \<mapsto> []);
          bs = ifbitstream_open (if fs filename = None then None else fs1 filename)
      in case operator_in bs hashmap_init of
           Inl e \<Rightarrow> Some (Inl e)
         | Inr (bs1, frequency) \<Rightarrow>
             (case buildEncodingTree tie frequency of
                Inl e \<Rightarrow> Some (Inl e)
              | Inr encodingTree \<Rightarrow>
                  (case decode bs1 encodingTree [] of
                     None \<Rightarrow> None
                   | Some (Inl e) \<Rightarrow> Some (Inl e)
                   | Some (Inr (decoded, bs2, os)) \<Rightarrow> Some (Inr (decoded, fs1(unc \<mapsto> os))))))"

section \<open>Well-formed tables\<close>

text \<open>
  A key can be stored when its hash is not negative (the hash is negative for exactly the
  keys where \<^verbatim>\<open>hash *= -1\<close> overflows, and then the bucket index is \<open>- 8\<close>). A table is
  well formed when it has the ten buckets of the constructor, every pair lies in the
  bucket of its key, no bucket holds a key twice, and \<^verbatim>\<open>nElems\<close> counts the pairs. The
  constructor gives such a table and \<^verbatim>\<open>put\<close> keeps it so.
\<close>

definition key_ok :: "int32 \<Rightarrow> bool" where
  "key_ok key = (0 \<le> sint (hashFunction key))"

definition slot :: "int32 \<Rightarrow> nat" where
  "slot key = nat (sint (hashFunction key) mod 10)"

definition entries :: "hashmap \<Rightarrow> key_val_pair list" where
  "entries m = concat (buckets m)"

definition lookup :: "hashmap \<Rightarrow> int32 \<Rightarrow> int32 option" where
  "lookup m key = map_of (buckets m ! slot key) key"

definition bucket_ok :: "key_val_pair list list \<Rightarrow> nat \<Rightarrow> bool" where
  "bucket_ok bs i =
    (list_all (\<lambda>kv. key_ok (fst kv) \<and> slot (fst kv) = i) (bs ! i) \<and> distinct (map fst (bs ! i)))"

definition hashmap_inv :: "hashmap \<Rightarrow> bool" where
  "hashmap_inv m =
    (nBuckets m = 10 \<and> length (buckets m) = 10 \<and> list_all (bucket_ok (buckets m)) [0..<10] \<and>
     nElems m = of_nat (length (entries m)))"

lemma neg_int32:
  fixes w :: int32
  assumes "sint w < 0" "sint (- w) < 0"
  shows "sint (- w) = - 2147483648"
proof -
  have b: "- 2147483648 \<le> sint w" using sint_ge [of w] by simp
  have e: "sint (- w) = signed_take_bit 31 (- sint w)"
    by (simp add: sint_word_ariths)
  show ?thesis
  proof (cases "sint w = - 2147483648")
    case True
    have "signed_take_bit 31 (2147483648::int) = - 2147483648"
      by (simp add: signed_take_bit_eq_take_bit_shift take_bit_eq_mod)
    with True e show ?thesis by (simp only: minus_minus)
  next
    case False
    with b assms(1) have "- (2 ^ 31) \<le> - sint w" "- sint w < 2 ^ 31" by simp_all
    then have "signed_take_bit 31 (- sint w) = - sint w"
      by (rule signed_take_bit_int_eq_self)
    with e assms show ?thesis by simp
  qed
qed

lemma negate_if_negative:
  fixes w :: int32
  shows "sint (if w <s 0 then w * (- 1) else w) < 0 \<Longrightarrow>
    sint (if w <s 0 then w * (- 1) else w) = - 2147483648"
  using neg_int32 [of w] by (simp add: word_sless_alt split: if_splits)

lemma hashFunction_neg:
  "sint (hashFunction key) < 0 \<Longrightarrow> sint (hashFunction key) = - 2147483648"
  unfolding hashFunction_def Let_def by (rule negate_if_negative)

lemma slot_less: "slot key < 10"
  by (simp add: slot_def)

lemma bucketIndex_inv:
  assumes "hashmap_inv m"
  shows "bucketIndex m key = (if key_ok key then Inr (slot key) else Inl OutOfBounds)"
proof (cases "key_ok key")
  case True
  then have "sint (hashFunction key) smod 10 = sint (hashFunction key) mod 10"
    by (simp add: key_ok_def signed_modulo_int_def sgn_if)
  with True assms show ?thesis
    by (simp add: bucketIndex_def hashmap_inv_def slot_def Let_def)
next
  case False
  then have "sint (hashFunction key) = - 2147483648"
    using hashFunction_neg [of key] by (simp add: key_ok_def)
  then have "sint (hashFunction key) smod 10 = - 8"
    by (simp add: signed_modulo_int_def)
  with False assms show ?thesis
    by (simp add: bucketIndex_def hashmap_inv_def Let_def)
qed

lemma hashmap_inv_init: "hashmap_inv hashmap_init"
  by (simp add: hashmap_inv_def hashmap_init_def createBucketArray_def entries_def
      bucket_ok_def upt_rec numeral_nat)

subsection \<open>Chains\<close>

lemma get_chain_map_of: "get_chain ch key = map_of ch key"
  by (induction ch) auto

lemma containsKey_chain_iff: "containsKey_chain ch key = (map_of ch key \<noteq> None)"
  by (induction ch) auto

lemma put_chain_absent:
  "key \<notin> fst ` set ch \<Longrightarrow> put_chain ch key val = (ch @ [(key, val)], False)"
  by (induction ch) auto

lemma put_chain_flag: "snd (put_chain ch key val) = (key \<in> fst ` set ch)"
  by (induction ch) (auto split: prod.splits)

lemma put_chain_map_of: "map_of (fst (put_chain ch key val)) = (map_of ch)(key \<mapsto> val)"
  by (induction ch) (auto split: prod.splits simp: fun_eq_iff)

lemma put_chain_keys:
  "map fst (fst (put_chain ch key val)) =
     (if key \<in> fst ` set ch then map fst ch else map fst ch @ [key])"
  by (induction ch) (force split: prod.splits)+

lemma put_chain_length:
  "length (fst (put_chain ch key val)) = (if key \<in> fst ` set ch then length ch else Suc (length ch))"
  using put_chain_keys [of ch key val] by (metis length_append_singleton length_map)

lemma put_chain_nonempty: "fst (put_chain ch key val) \<noteq> []"
  by (cases ch) (auto split: prod.splits if_splits)

subsection \<open>Operations on a well-formed table\<close>

lemma hashmap_inv_alt:
  "hashmap_inv m =
    (nBuckets m = 10 \<and> length (buckets m) = 10 \<and> (\<forall>i<10. bucket_ok (buckets m) i) \<and>
     nElems m = of_nat (length (entries m)))"
  by (auto simp add: hashmap_inv_def list_all_iff)

lemma length_concat_update:
  "i < length bs \<Longrightarrow>
     length (concat (bs[i := c])) + length (bs ! i) = length (concat bs) + length c"
proof (induction bs arbitrary: i)
  case Nil
  then show ?case by simp
next
  case (Cons b bs)
  then show ?case by (cases i) auto
qed

lemma put_inv_eq:
  assumes "hashmap_inv m" "key_ok key"
  shows "put m key val =
    Inr (m\<lparr>buckets := (buckets m)[slot key := fst (put_chain (buckets m ! slot key) key val)],
           nElems := (if key \<in> fst ` set (buckets m ! slot key) then nElems m else nElems m + 1)\<rparr>)"
proof (cases "buckets m ! slot key = []")
  case True
  with assms show ?thesis
    by (simp add: put_def bucketIndex_inv)
next
  case False
  obtain chain flag where p: "put_chain (buckets m ! slot key) key val = (chain, flag)"
    by (cases "put_chain (buckets m ! slot key) key val")
  from p have "flag = (key \<in> fst ` set (buckets m ! slot key))"
    using put_chain_flag [of "buckets m ! slot key" key val] by simp
  with False p assms show ?thesis
    by (simp add: put_def bucketIndex_inv)
qed

lemma bucket_ok_put:
  assumes "bucket_ok bs (slot key)" "key_ok key"
  shows "bucket_ok (bs[slot key := fst (put_chain (bs ! slot key) key val)]) (slot key)"
proof (cases "slot key < length bs")
  case True
  have k: "map fst (fst (put_chain (bs ! slot key) key val)) =
      (if key \<in> fst ` set (bs ! slot key) then map fst (bs ! slot key)
       else map fst (bs ! slot key) @ [key])"
    by (rule put_chain_keys)
  have "list_all (\<lambda>k. key_ok k \<and> slot k = slot key) (map fst (bs ! slot key))"
    using assms(1) by (simp add: bucket_ok_def list_all_iff)
  with assms(2) k
  have "list_all (\<lambda>k. key_ok k \<and> slot k = slot key)
          (map fst (fst (put_chain (bs ! slot key) key val)))"
    by (simp split: if_splits)
  moreover have "distinct (map fst (fst (put_chain (bs ! slot key) key val)))"
    using assms(1) k by (auto simp add: bucket_ok_def)
  ultimately show ?thesis using True
    by (simp add: bucket_ok_def list_all_iff)
next
  case False
  then have "bs[slot key := fst (put_chain (bs ! slot key) key val)] = bs"
    by (simp add: list_update_beyond)
  with assms(1) show ?thesis by simp
qed

lemma bucket_ok_other:
  "i \<noteq> j \<Longrightarrow> bucket_ok (bs[j := c]) i = bucket_ok bs i"
  by (simp add: bucket_ok_def)

lemma put_inv:
  assumes "hashmap_inv m" "key_ok key" "put m key val = Inr m'"
  shows "hashmap_inv m'"
proof -
  let ?i = "slot key"
  let ?c = "fst (put_chain (buckets m ! ?i) key val)"
  have m': "m' = m\<lparr>buckets := (buckets m)[?i := ?c],
           nElems := (if key \<in> fst ` set (buckets m ! ?i) then nElems m else nElems m + 1)\<rparr>"
    using put_inv_eq [OF assms(1,2), of val] assms(3) by simp
  have len: "length (buckets m) = 10" and i: "?i < length (buckets m)"
    using assms(1) slot_less [of key] by (simp_all add: hashmap_inv_alt)
  have ok: "bucket_ok (buckets m') j" if "j < 10" for j
  proof (cases "j = ?i")
    case True
    have "bucket_ok (buckets m) ?i"
      using assms(1) slot_less [of key] by (simp add: hashmap_inv_alt)
    from bucket_ok_put [OF this assms(2)] True show ?thesis by (simp add: m')
  next
    case False
    with that assms(1) show ?thesis
      by (simp add: m' bucket_ok_other hashmap_inv_alt)
  qed
  have "length (concat ((buckets m)[?i := ?c])) + length (buckets m ! ?i)
      = length (concat (buckets m)) + length ?c"
    by (rule length_concat_update [OF i])
  then have "length (entries m') =
      (if key \<in> fst ` set (buckets m ! ?i) then length (entries m) else Suc (length (entries m)))"
    by (simp add: m' entries_def put_chain_length split: if_splits)
  moreover have "nElems m = of_nat (length (entries m))"
    using assms(1) by (simp add: hashmap_inv_alt)
  ultimately have n: "nElems m' = of_nat (length (entries m'))"
    by (simp add: m')
  have "nBuckets m' = 10" "length (buckets m') = 10"
    using assms(1) by (simp_all add: m' hashmap_inv_alt)
  with ok n show ?thesis
    unfolding hashmap_inv_alt by blast
qed

lemma put_lookup:
  assumes "hashmap_inv m" "key_ok key" "put m key val = Inr m'"
  shows "lookup m' = (lookup m)(key \<mapsto> val)"
proof
  fix k
  have i: "slot key < length (buckets m)"
    using assms(1) slot_less [of key] by (simp add: hashmap_inv_alt)
  have m': "buckets m' = (buckets m)[slot key := fst (put_chain (buckets m ! slot key) key val)]"
    using put_inv_eq [OF assms(1,2), of val] assms(3) by auto
  show "lookup m' k = ((lookup m)(key \<mapsto> val)) k"
  proof (cases "slot k = slot key")
    case True
    with i show ?thesis
      by (simp add: lookup_def m' put_chain_map_of)
  next
    case False
    then have "k \<noteq> key" by auto
    with False show ?thesis
      by (simp add: lookup_def m')
  qed
qed

lemma put_ok:
  assumes "hashmap_inv m" "key_ok key"
  shows "\<exists>m'. put m key val = Inr m'"
  using put_inv_eq [OF assms] by simp

lemma get_inv:
  assumes "hashmap_inv m" "key_ok key"
  shows "get m key =
    (case lookup m key of
       Some v \<Rightarrow> Inr v
     | None \<Rightarrow> if buckets m ! slot key = [] then Inl (Thrown ''Error: Key is not in map.'')
               else Inr 0)"
  using assms
  by (auto simp add: get_def bucketIndex_inv lookup_def get_chain_map_of Let_def split: option.splits)

lemma containsKey_inv:
  assumes "hashmap_inv m" "key_ok key"
  shows "containsKey m key = Inr (lookup m key \<noteq> None)"
  using assms
  by (simp add: containsKey_def bucketIndex_inv lookup_def containsKey_chain_iff)

lemma keys_entries:
  assumes "hashmap_inv m"
  shows "keys m = map fst (entries m)"
proof -
  have "map (\<lambda>i. map fst (buckets m ! i)) [0..<length (buckets m)] = map (map fst) (buckets m)"
    by (rule nth_equalityI) simp_all
  with assms show ?thesis
    by (simp add: keys_def entries_def hashmap_inv_alt map_concat)
qed


section \<open>Lookups in the symbol table\<close>

lemma hash_97: "hashFunction 97 = 724091135"
  by (simp add: hashFunction_def Let_def word_sless_alt)

lemma hash_1: "hashFunction 1 = 824515495"
  by (simp add: hashFunction_def Let_def word_sless_alt)

lemma get_after_put:
  assumes "hashmap_inv m" "key_ok key" "put m key val = Inr m'"
  shows "get m' key = Inr val"
proof -
  have "hashmap_inv m'" using assms by (rule put_inv)
  moreover have "lookup m' key = Some val"
    using put_lookup [OF assms] by simp
  ultimately show ?thesis using assms(2) by (simp add: get_inv)
qed

lemma get_empty_bucket:
  assumes "hashmap_inv m" "key_ok key" "buckets m ! slot key = []"
  shows "get m key = Inl (Thrown ''Error: Key is not in map.'')"
  using assms by (simp add: get_inv lookup_def)

text \<open>
  C3. \<^verbatim>\<open>get\<close> of an absent key is meant to fail, and it does throw when the bucket of
  the key is empty (\<open>get_empty_bucket\<close>); a present key gives the value last put
  (\<open>get_after_put\<close>). But when the bucket holds other keys the loop ends without a match
  and the statement marked \<^verbatim>\<open>// this should never be called\<close> returns \<open>0\<close>: the keys
  \<open>97\<close> and \<open>1\<close> share bucket 5, and after \<^verbatim>\<open>put(97, 3)\<close> on a new table the key \<open>1\<close> is
  absent (\<^verbatim>\<open>containsKey\<close> says so) while \<^verbatim>\<open>get(1)\<close> returns \<open>0\<close> as if it were stored.
\<close>

theorem get_absent_key_returns_zero:
  "\<exists>m. put hashmap_init 97 3 = Inr m \<and> containsKey m 1 = Inr False \<and> get m 1 = Inr 0"
  by (simp add: put_def get_def containsKey_def bucketIndex_def hash_97 hash_1 hashmap_init_def
      createBucketArray_def signed_modulo_int_def)

section \<open>The order of the keys\<close>

text \<open>
  \<^verbatim>\<open>keys()\<close> walks the buckets in index order and each chain from its head. A new key is
  linked at the end of its chain, so the keys of a bucket stand in the order in which they
  were first put: \<open>keys_of_history\<close> computes the result of \<^verbatim>\<open>keys()\<close> from the list of
  \<^verbatim>\<open>put\<close> calls alone.
\<close>

fun first_seen :: "int32 list \<Rightarrow> int32 list \<Rightarrow> int32 list" where
  "first_seen seen [] = seen"
| "first_seen seen (k # ks) = first_seen (if k \<in> set seen then seen else seen @ [k]) ks"

definition keys_of_history :: "key_val_pair list \<Rightarrow> int32 list" where
  "keys_of_history history =
     concat (map (\<lambda>i. first_seen [] (filter (\<lambda>k. slot k = i) (map fst history))) [0..<10])"

lemma put_Inr_key_ok:
  assumes "hashmap_inv m" "put m key val = Inr m'"
  shows "key_ok key"
  using assms by (auto simp add: put_def bucketIndex_inv split: if_splits)

lemma put_bucket_keys:
  assumes "hashmap_inv m" "put m key val = Inr m'" "i < 10"
  shows "map fst (buckets m' ! i) =
    first_seen (map fst (buckets m ! i)) (filter (\<lambda>k. slot k = i) [key])"
proof -
  have ok: "key_ok key" using assms(1,2) by (rule put_Inr_key_ok)
  have len: "length (buckets m) = 10" using assms(1) by (simp add: hashmap_inv_alt)
  have b: "buckets m' = (buckets m)[slot key := fst (put_chain (buckets m ! slot key) key val)]"
    using put_inv_eq [OF assms(1) ok, of val] assms(2) by auto
  show ?thesis
  proof (cases "slot key = i")
    case True
    with len assms(3) show ?thesis
      by (simp add: b put_chain_keys)
  next
    case False
    then show ?thesis by (simp add: b)
  qed
qed

lemma first_seen_append:
  "first_seen seen (xs @ ys) = first_seen (first_seen seen xs) ys"
  by (induction xs arbitrary: seen) simp_all

lemma put_all_bucket_keys:
  assumes "hashmap_inv m" "put_all m history = Inr m'"
  shows "hashmap_inv m' \<and> (\<forall>i<10. map fst (buckets m' ! i) =
    first_seen (map fst (buckets m ! i)) (filter (\<lambda>k. slot k = i) (map fst history)))"
  using assms
proof (induction history arbitrary: m)
  case Nil
  then show ?case by simp
next
  case (Cons kv history)
  obtain key val where kv: "kv = (key, val)" by (cases kv)
  from Cons.prems(2) kv obtain m1 where m1: "put m key val = Inr m1" "put_all m1 history = Inr m'"
    by (auto split: sum.splits)
  have ok: "key_ok key" using Cons.prems(1) m1(1) by (rule put_Inr_key_ok)
  have inv1: "hashmap_inv m1" using Cons.prems(1) ok m1(1) by (rule put_inv)
  from Cons.IH [OF inv1 m1(2)]
  have IH: "hashmap_inv m'" "\<forall>i<10. map fst (buckets m' ! i) =
    first_seen (map fst (buckets m1 ! i)) (filter (\<lambda>k. slot k = i) (map fst history))"
    by simp_all
  have "map fst (buckets m' ! i) =
    first_seen (map fst (buckets m ! i)) (filter (\<lambda>k. slot k = i) (map fst (kv # history)))"
    if "i < 10" for i
  proof -
    have "filter (\<lambda>k. slot k = i) (map fst (kv # history)) =
        filter (\<lambda>k. slot k = i) [key] @ filter (\<lambda>k. slot k = i) (map fst history)"
      by (simp add: kv)
    then show ?thesis
      using IH(2) that put_bucket_keys [OF Cons.prems(1) m1(1) that]
      by (simp only: first_seen_append)
  qed
  with IH(1) show ?case by simp
qed

lemma keys_of_put_all:
  assumes "put_all hashmap_init history = Inr t"
  shows "keys t = keys_of_history history"
proof -
  have r: "hashmap_inv t" "\<forall>i<10. map fst (buckets t ! i) =
      first_seen (map fst (buckets hashmap_init ! i)) (filter (\<lambda>k. slot k = i) (map fst history))"
    using put_all_bucket_keys [OF hashmap_inv_init assms] by simp_all
  have "buckets hashmap_init ! i = []" if "i < 10" for i
    using that by (simp add: hashmap_init_def createBucketArray_def)
  with r(2) have eq: "map (\<lambda>i. map fst (buckets t ! i)) [0..<10] =
      map (\<lambda>i. first_seen [] (filter (\<lambda>k. slot k = i) (map fst history))) [0..<10]"
    by simp
  have n: "nat (sint (nBuckets t)) = 10" using r(1) by (simp add: hashmap_inv_alt)
  show ?thesis by (simp only: keys_def keys_of_history_def n eq)
qed

lemma hash_256: "hashFunction 256 = 1480343449"
  by (simp add: hashFunction_def Let_def word_sless_alt)

lemma slot_97: "slot 97 = 5" by (simp add: slot_def hash_97)
lemma slot_1: "slot 1 = 5" by (simp add: slot_def hash_1)
lemma slot_256: "slot 256 = 9" by (simp add: slot_def hash_256)

lemma upt_10: "[0..<10] = [0, 1, 2, 3, 4, 5, 6, 7, 8, 9]"
  by (simp add: upt_rec)

lemma hashmap_init_eval:
  "hashmap_init = \<lparr>buckets = [[], [], [], [], [], [], [], [], [], []], nBuckets = 10, nElems = 0\<rparr>"
  by (simp add: hashmap_init_def createBucketArray_def numeral_eq_Suc)

lemma put_all_example:
  "put_all hashmap_init [(97, 3), (256, 1), (1, 7), (97, 4)] =
     Inr \<lparr>buckets = [[], [], [], [], [], [(97, 4), (1, 7)], [], [], [], [(256, 1)]],
          nBuckets = 10, nElems = 3\<rparr>"
  by (simp add: put_def bucketIndex_def hash_97 hash_1 hash_256 hashmap_init_eval
      signed_modulo_int_def)

lemma keys_of_history_example:
  "keys_of_history [(97, 3), (256, 1), (1, 7), (97, 4)] = [97, 1, 256]"
  by (simp add: keys_of_history_def slot_97 slot_1 slot_256 upt_10)

text \<open>
  C9. Two tables built from the constructor by the same sequence of \<^verbatim>\<open>put\<close> calls have
  the same \<^verbatim>\<open>keys()\<close>, which is the function \<open>keys_of_history\<close> of that sequence, and
  \<^verbatim>\<open>operator<<\<close> writes the same bytes for both.
\<close>

theorem keys_determined_by_history:
  assumes "put_all hashmap_init history = Inr t1" and "put_all hashmap_init history = Inr t2"
  shows "keys t1 = keys_of_history history \<and> keys t2 = keys t1 \<and>
    operator_out out t2 = operator_out out t1"
  using assms keys_of_put_all [OF assms(1)] by simp

theorem keys_determined_by_history_witness:
  "put_all hashmap_init [(97, 3), (256, 1), (1, 7), (97, 4)] =
     Inr \<lparr>buckets = [[], [], [], [], [], [(97, 4), (1, 7)], [], [], [], [(256, 1)]],
          nBuckets = 10, nElems = 3\<rparr> \<and>
   keys \<lparr>buckets = [[], [], [], [], [], [(97, 4), (1, 7)], [], [], [], [(256, 1)]],
          nBuckets = 10, nElems = 3\<rparr> = [97, 1, 256]"
  using keys_determined_by_history [OF put_all_example put_all_example]
  by (simp only: put_all_example keys_of_history_example simp_thms)

section \<open>Keys that can be stored\<close>

text \<open>
  The two multiplications by the odd constant and the two unsigned shift-and-xor steps of
  \<^verbatim>\<open>hashFunction\<close> can be undone, so the hash is \<open>- 2 ^ 31\<close> only when
  \<open>(input >> 16) ^ input\<close> is one particular number. No key between \<open>- 65536\<close> and
  \<open>65535\<close> gives it: every character and the two markers can be stored.
\<close>

lemma xorshift_involution:
  fixes t :: int32
  shows "drop_bit 16 (drop_bit 16 t XOR t) XOR (drop_bit 16 t XOR t) = t"
  by (rule bit_word_eqI) (auto simp add: bit_simps)

lemma xorshift_eq:
  fixes t :: int32
  assumes "drop_bit 16 t XOR t = c"
  shows "t = drop_bit 16 c XOR c"
  using xorshift_involution [of t] assms by simp

lemma mult_inverse: "(0x45d9f3b :: int32) * 0x119de1f3 = 1"
  by simp

lemma mult_eq:
  fixes y :: int32
  assumes "y * 0x45d9f3b = c"
  shows "y = c * 0x119de1f3"
proof -
  have "y * (0x45d9f3b * 0x119de1f3) = c * 0x119de1f3"
    using assms by (simp only: mult.assoc [symmetric])
  then show ?thesis by (simp only: mult_inverse mult_1_right)
qed

lemma negate_to_min:
  fixes t :: int32
  assumes "(if t <s 0 then t * (- 1) else t) = 0x80000000"
  shows "t = 0x80000000"
proof (cases "t <s 0")
  case True
  with assms have "- t = 0x80000000" by simp
  then have "- (- t) = - (0x80000000 :: int32)" by (rule arg_cong)
  then show ?thesis by simp
next
  case False
  with assms show ?thesis by simp
qed

lemma hash_negative:
  assumes "\<not> key_ok k"
  shows "signed_drop_bit 16 k XOR k = 0x3bbf955b"
proof -
  define a where "a = signed_drop_bit 16 k XOR k"
  define t1 where "t1 = a * 0x45d9f3b"
  define t2 where "t2 = (drop_bit 16 t1 XOR t1) * 0x45d9f3b"
  define t3 where "t3 = drop_bit 16 t2 XOR t2"
  have h: "hashFunction k = (if t3 <s 0 then t3 * (- 1) else t3)"
    by (simp add: hashFunction_def Let_def a_def t1_def t2_def t3_def)
  have "sint (hashFunction k) = - 2147483648"
    using assms hashFunction_neg [of k] by (simp add: key_ok_def)
  then have "sint (hashFunction k) = sint (0x80000000 :: int32)" by simp
  then have "hashFunction k = 0x80000000" by (rule signed_word_eqI)
  with h have "t3 = 0x80000000"
    using negate_to_min [of t3] by simp
  then have "t2 = 0x80008000"
    using xorshift_eq [of t2 "0x80000000"] by (simp add: t3_def)
  then have "drop_bit 16 t1 XOR t1 = 0x70f98000"
    using mult_eq [of "drop_bit 16 t1 XOR t1" "0x80008000"] by (simp add: t2_def)
  then have "t1 = 0x70f9f0f9"
    using xorshift_eq [of t1 "0x70f98000"] by simp
  then have "a = 0x3bbf955b"
    using mult_eq [of a "0x70f9f0f9"] by (simp add: t1_def)
  then show ?thesis by (simp add: a_def)
qed

lemma small_key_ok:
  assumes "- 65536 \<le> sint k" "sint k < 65536"
  shows "key_ok k"
proof (rule ccontr)
  assume "\<not> key_ok k"
  then have a: "signed_drop_bit 16 k XOR k = 0x3bbf955b" by (rule hash_negative)
  have s: "sint (signed_drop_bit 16 k) = drop_bit 16 (sint k)"
    by (rule sint_signed_drop_bit_eq)
  show False
  proof (cases "0 \<le> sint k")
    case True
    with assms(2) have "drop_bit 16 (sint k) = 0"
      by (simp add: drop_bit_eq_div)
    with s have "sint (signed_drop_bit 16 k) = sint (0 :: int32)" by simp
    then have "signed_drop_bit 16 k = 0" by (rule signed_word_eqI)
    with a have "k = 0x3bbf955b" by simp
    then have "sint k = 1002411355" by simp
    with assms(2) show False by simp
  next
    case False
    with assms(1) have "drop_bit 16 (sint k) = - 1"
      by (simp add: drop_bit_eq_div)
    with s have "sint (signed_drop_bit 16 k) = sint (- 1 :: int32)" by simp
    then have "signed_drop_bit 16 k = - 1" by (rule signed_word_eqI)
    with a have "NOT k = 0x3bbf955b" by (simp add: xor.commute)
    then have "NOT (NOT k) = NOT (0x3bbf955b :: int32)" by (rule arg_cong)
    then have "k = NOT 0x3bbf955b" by simp
    then have "sint k = - 1002411356" by simp
    with assms(1) show False by simp
  qed
qed

subsection \<open>Characters as keys\<close>

lemma sint_word_of_int_small:
  assumes "- 2147483648 \<le> k" "k < 2147483648"
  shows "sint (word_of_int k :: int32) = k"
proof -
  have "sint (word_of_int k :: int32) = signed_take_bit 31 k"
    by (simp add: signed_of_int)
  also have "\<dots> = k"
    using assms by (intro signed_take_bit_int_eq_self) simp_all
  finally show ?thesis .
qed

definition char_code :: "bool \<Rightarrow> char \<Rightarrow> int" where
  "char_code signed_char c =
     (if signed_char \<and> 128 \<le> (of_char c :: nat) then int (of_char c) - 256 else int (of_char c))"

lemma char_code_range: "- 128 \<le> char_code signed_char c \<and> char_code signed_char c \<le> 255"
proof -
  have "(of_char c :: nat) < 256" by simp
  then show ?thesis unfolding char_code_def by (auto simp del: nat_of_char_less_256)
qed

lemma char_code_unsigned_range: "0 \<le> char_code False c \<and> char_code False c \<le> 255"
  using char_code_range [of False c] by (simp add: char_code_def)

lemma int_of_char_code: "int_of_char signed_char c = word_of_int (char_code signed_char c)"
  by (simp add: int_of_char_def char_code_def)

lemma sint_int_of_char: "sint (int_of_char signed_char c) = char_code signed_char c"
  using char_code_range [of signed_char c]
  by (simp add: int_of_char_code sint_word_of_int_small)

lemma key_ok_int_of_char: "key_ok (int_of_char signed_char c)"
  using char_code_range [of signed_char c]
  by (intro small_key_ok) (simp_all add: sint_int_of_char)

lemma key_ok_256: "key_ok 256"
  by (rule small_key_ok) simp_all

lemma char_code_inj:
  assumes "char_code signed_char c = char_code signed_char d"
  shows "c = d"
proof -
  have "(of_char c :: nat) < 256" "(of_char d :: nat) < 256" by simp_all
  with assms have "(of_char c :: nat) = of_char d"
    unfolding char_code_def by (auto simp del: nat_of_char_less_256 split: if_splits)
  then show "c = d" by simp
qed

lemma int_of_char_inj: "int_of_char signed_char c = int_of_char signed_char d \<Longrightarrow> c = d"
proof -
  assume "int_of_char signed_char c = int_of_char signed_char d"
  then have "sint (int_of_char signed_char c) = sint (int_of_char signed_char d)" by simp
  then show "c = d" by (simp add: sint_int_of_char char_code_inj)
qed

lemma int_of_char_not_256: "int_of_char signed_char c \<noteq> 256"
proof
  assume "int_of_char signed_char c = 256"
  then have "sint (int_of_char signed_char c) = sint (256 :: int32)" by simp
  then show False using char_code_range [of signed_char c] by (simp add: sint_int_of_char)
qed

lemma int_of_char_not_257: "int_of_char signed_char c \<noteq> 257"
proof
  assume "int_of_char signed_char c = 257"
  then have "sint (int_of_char signed_char c) = sint (257 :: int32)" by simp
  then show False using char_code_range [of signed_char c] by (simp add: sint_int_of_char)
qed

lemma char_of_int_of_char: "char_of_int (int_of_char signed_char c) = c"
proof -
  have lt: "(of_char c :: nat) < 256" by simp
  have "unat (int_of_char signed_char c) mod 256 = of_char c"
  proof (cases "signed_char \<and> 128 \<le> (of_char c :: nat)")
    case True
    have e1: "int_of_char signed_char c = of_nat (of_char c) + 4294967040"
      using True by (simp add: int_of_char_def)
    have e2: "unat (of_nat (of_char c) + 4294967040 :: int32) = of_char c + 4294967040"
      using True lt by (simp add: unat_word_ariths unat_of_nat del: nat_of_char_less_256)
    have e3: "(of_char c + 4294967040) mod 256 = (of_char c :: nat)"
    proof -
      have "(of_char c + 4294967040) mod 256 = ((of_char c :: nat) + 16777215 * 256) mod 256"
        by simp
      also have "\<dots> = (of_char c :: nat) mod 256" by (rule mod_mult_self1)
      also have "\<dots> = of_char c" by simp
      finally show ?thesis .
    qed
    show ?thesis by (simp only: e1 e2 e3)
  next
    case False
    have "unat (of_nat (of_char c) :: int32) = of_char c"
      using lt by (simp add: unat_of_nat del: nat_of_char_less_256)
    with False show ?thesis by (auto simp add: int_of_char_def)
  qed
  then have "char_of (unat (int_of_char signed_char c) mod 256) = (char_of (of_char c :: nat) :: char)"
    by simp
  then show ?thesis by (simp add: char_of_int_def)
qed

section \<open>The frequency map\<close>

lemma in_bucket_slot:
  assumes "hashmap_inv m" "i < 10" "k \<in> fst ` set (buckets m ! i)"
  shows "slot k = i \<and> key_ok k"
  using assms by (auto simp add: hashmap_inv_alt bucket_ok_def list_all_iff)

lemma lookup_Some_iff:
  assumes "hashmap_inv m"
  shows "(lookup m k \<noteq> None) = (k \<in> set (keys m))"
proof -
  have len: "length (buckets m) = 10" using assms by (simp add: hashmap_inv_alt)
  have "k \<in> set (keys m) \<longleftrightarrow> (\<exists>b \<in> set (buckets m). k \<in> fst ` set b)"
    by (auto simp add: keys_entries [OF assms] entries_def)
  also have "\<dots> \<longleftrightarrow> (\<exists>i<10. k \<in> fst ` set (buckets m ! i))"
    using len by (metis in_set_conv_nth)
  also have "\<dots> \<longleftrightarrow> k \<in> fst ` set (buckets m ! slot k)"
    using in_bucket_slot [OF assms] slot_less [of k] by blast
  also have "\<dots> \<longleftrightarrow> lookup m k \<noteq> None"
    by (simp add: lookup_def map_of_eq_None_iff)
  finally show ?thesis by simp
qed

lemma keys_dom: "hashmap_inv m \<Longrightarrow> set (keys m) = dom (lookup m)"
  using lookup_Some_iff [of m] by (auto simp add: dom_def)

lemma keys_key_ok: "hashmap_inv m \<Longrightarrow> k \<in> set (keys m) \<Longrightarrow> key_ok k"
proof -
  assume inv: "hashmap_inv m" and "k \<in> set (keys m)"
  then have "lookup m k \<noteq> None" using lookup_Some_iff [of m k] by blast
  then have "k \<in> fst ` set (buckets m ! slot k)"
    by (simp add: lookup_def map_of_eq_None_iff)
  with in_bucket_slot [OF inv slot_less] show "key_ok k" by blast
qed

lemma distinct_concat_nth:
  assumes "\<And>i. i < length xs \<Longrightarrow> distinct (xs ! i)"
    and "\<And>i j. i < j \<Longrightarrow> j < length xs \<Longrightarrow> set (xs ! i) \<inter> set (xs ! j) = {}"
  shows "distinct (concat xs)"
  using assms
proof (induction xs)
  case Nil
  then show ?case by simp
next
  case (Cons x xs)
  have d: "distinct x" using Cons.prems(1) [of 0] by simp
  have "distinct (concat xs)"
  proof (rule Cons.IH)
    fix i assume "i < length xs"
    then show "distinct (xs ! i)" using Cons.prems(1) [of "Suc i"] by simp
  next
    fix i j assume "i < j" "j < length xs"
    then show "set (xs ! i) \<inter> set (xs ! j) = {}"
      using Cons.prems(2) [of "Suc i" "Suc j"] by simp
  qed
  moreover have "set x \<inter> set (concat xs) = {}"
  proof -
    have "set x \<inter> set y = {}" if "y \<in> set xs" for y
    proof -
      from that obtain j where "j < length xs" "y = xs ! j" by (auto simp add: in_set_conv_nth)
      then show ?thesis using Cons.prems(2) [of 0 "Suc j"] by simp
    qed
    then show ?thesis by auto
  qed
  ultimately show ?case using d by simp
qed

lemma keys_distinct:
  assumes "hashmap_inv m"
  shows "distinct (keys m)"
proof -
  have len: "length (buckets m) = 10" using assms by (simp add: hashmap_inv_alt)
  have "distinct (concat (map (map fst) (buckets m)))"
  proof (rule distinct_concat_nth)
    fix i assume "i < length (map (map fst) (buckets m))"
    then show "distinct (map (map fst) (buckets m) ! i)"
      using assms len by (simp add: hashmap_inv_alt bucket_ok_def)
  next
    fix i j assume ij: "i < j" "j < length (map (map fst) (buckets m))"
    then have "i < 10" "j < 10" using len by simp_all
    then have "set (map fst (buckets m ! i)) \<inter> set (map fst (buckets m ! j)) = {}"
      using in_bucket_slot [OF assms, of i] in_bucket_slot [OF assms, of j] ij(1) by fastforce
    then show "set (map (map fst) (buckets m) ! i) \<inter> set (map (map fst) (buckets m) ! j) = {}"
      using ij len by simp
  qed
  then show ?thesis
    by (simp add: keys_entries [OF assms] entries_def map_concat)
qed

lemma get_present:
  assumes "hashmap_inv m" "lookup m k = Some v"
  shows "get m k = Inr v"
proof -
  have "k \<in> set (keys m)" using assms lookup_Some_iff [of m k] by simp
  then have "key_ok k" using assms(1) by (simp add: keys_key_ok)
  with assms show ?thesis by (simp add: get_inv)
qed

subsection \<open>Counting\<close>

definition bump :: "(int32 \<Rightarrow> int32 option) \<Rightarrow> int32 \<Rightarrow> int32 \<Rightarrow> int32 option" where
  "bump L k = L(k \<mapsto> (case L k of None \<Rightarrow> 1 | Some n \<Rightarrow> n + 1))"

lemma char_to_hash_inv:
  assumes "hashmap_inv h"
  shows "\<exists>h'. char_to_hash signed_char c h = Inr h' \<and> hashmap_inv h' \<and>
    lookup h' = bump (lookup h) (int_of_char signed_char c)"
proof -
  let ?k = "int_of_char signed_char c"
  have ok: "key_ok ?k" by (rule key_ok_int_of_char)
  show ?thesis
  proof (cases "lookup h ?k")
    case None
    obtain h' where p: "put h ?k 1 = Inr h'" using put_ok [OF assms ok] by blast
    have "char_to_hash signed_char c h = Inr h'"
      using None p assms ok by (simp add: char_to_hash_def containsKey_inv)
    moreover have "hashmap_inv h'" using assms ok p by (rule put_inv)
    moreover have "lookup h' = bump (lookup h) ?k"
      using put_lookup [OF assms ok p] None by (simp add: bump_def)
    ultimately show ?thesis by blast
  next
    case (Some n)
    obtain h' where p: "put h ?k (n + 1) = Inr h'" using put_ok [OF assms ok] by blast
    have "char_to_hash signed_char c h = Inr h'"
      using Some p assms ok by (simp add: char_to_hash_def containsKey_inv get_inv)
    moreover have "hashmap_inv h'" using assms ok p by (rule put_inv)
    moreover have "lookup h' = bump (lookup h) ?k"
      using put_lookup [OF assms ok p] Some by (simp add: bump_def)
    ultimately show ?thesis by blast
  qed
qed

definition tally :: "bool \<Rightarrow> string \<Rightarrow> (int32 \<Rightarrow> int32 option) \<Rightarrow> int32 \<Rightarrow> int32 option" where
  "tally signed_char cs L k =
     (if k \<in> int_of_char signed_char ` set cs
      then Some ((case L k of None \<Rightarrow> 0 | Some n \<Rightarrow> n)
                 + of_nat (count_list (map (int_of_char signed_char) cs) k))
      else L k)"

lemma tally_Nil: "tally signed_char [] L = L"
  by (rule ext) (simp add: tally_def)

lemma tally_Cons:
  "tally signed_char (c # cs) L = tally signed_char cs (bump L (int_of_char signed_char c))"
  by (rule ext) (auto simp add: tally_def bump_def split: option.splits)

lemma char_to_hash_all_inv:
  assumes "hashmap_inv h"
  shows "\<exists>h'. char_to_hash_all signed_char cs h = Inr h' \<and> hashmap_inv h' \<and>
    lookup h' = tally signed_char cs (lookup h)"
  using assms
proof (induction cs arbitrary: h)
  case Nil
  then show ?case by (simp add: tally_Nil)
next
  case (Cons c cs)
  from char_to_hash_inv [OF Cons.prems, of signed_char c]
  obtain h1 where h1: "char_to_hash signed_char c h = Inr h1" "hashmap_inv h1"
    "lookup h1 = bump (lookup h) (int_of_char signed_char c)" by blast
  from Cons.IH [OF h1(2)] obtain h' where
    "char_to_hash_all signed_char cs h1 = Inr h'" "hashmap_inv h'"
    "lookup h' = tally signed_char cs (lookup h1)" by blast
  with h1 show ?case by (simp add: tally_Cons)
qed

lemma lookup_init: "lookup hashmap_init = Map.empty"
proof
  fix k
  have "slot k < 10" by (rule slot_less)
  then show "lookup hashmap_init k = None"
    by (simp add: lookup_def hashmap_init_def createBucketArray_def)
qed

lemma count_list_map_inj:
  assumes "\<And>x y. f x = f y \<Longrightarrow> x = y"
  shows "count_list (map f xs) (f x) = count_list xs x"
  using assms by (induction xs) auto

lemma buildFrequencyMap_lookup:
  "\<exists>T. buildFrequencyMap signed_char fs filename isFile hashmap_init = Inr T \<and> hashmap_inv T \<and>
     lookup T = (tally signed_char (if isFile then file_bytes fs filename else filename) Map.empty)
                  (256 \<mapsto> 1)"
proof -
  let ?cs = "if isFile then file_bytes fs filename else filename"
  from char_to_hash_all_inv [OF hashmap_inv_init, of signed_char ?cs]
  obtain h where h: "char_to_hash_all signed_char ?cs hashmap_init = Inr h" "hashmap_inv h"
    "lookup h = tally signed_char ?cs Map.empty" by (auto simp add: lookup_init)
  obtain T where T: "put h 256 1 = Inr T" using put_ok [OF h(2) key_ok_256] by blast
  have "hashmap_inv T" using h(2) key_ok_256 T by (rule put_inv)
  moreover have "lookup T = (lookup h)(256 \<mapsto> 1)" using h(2) key_ok_256 T by (rule put_lookup)
  ultimately show ?thesis using h T by (simp add: buildFrequencyMap_def)
qed

lemma hash_98: "hashFunction 98 = 1506863632"
  by (simp add: hashFunction_def Let_def word_sless_alt)

lemma hash_minus_128: "hashFunction (- 128) = 1642877456"
  by (simp add: hashFunction_def Let_def word_sless_alt)

lemma int_of_char_a: "int_of_char True CHR ''a'' = 97"
  by (simp add: int_of_char_def)

lemma int_of_char_b: "int_of_char True CHR ''b'' = 98"
  by (simp add: int_of_char_def)

lemma int_of_char_0x80: "int_of_char True (CHR 0x80) = - 128"
  by (simp add: int_of_char_def)

lemmas table_eval = put_def get_def containsKey_def bucketIndex_def char_to_hash_def
  buildFrequencyMap_def hashmap_init_eval signed_modulo_int_def

text \<open>
  C4, as the code has it. Starting from a new table, \<^verbatim>\<open>buildFrequencyMap\<close> returns a
  table whose keys are \<^verbatim>\<open>int(c)\<close> for the characters \<open>c\<close> of the input, and 256; no key
  stands twice; \<^verbatim>\<open>int(c)\<close> is mapped to the number of occurrences of \<open>c\<close> (as a 32-bit
  \<^verbatim>\<open>int\<close>) and 256 to 1; every key lies in \<open>- 128 .. 256\<close>. Where plain \<^verbatim>\<open>char\<close> is
  unsigned the keys are the byte values themselves and lie in \<open>0 .. 256\<close>.
\<close>

theorem buildFrequencyMap_table:
  "\<exists>T. buildFrequencyMap signed_char fs filename isFile hashmap_init = Inr T \<and>
     set (keys T) =
       insert 256 (int_of_char signed_char ` set (if isFile then file_bytes fs filename else filename)) \<and>
     distinct (keys T) \<and>
     (\<forall>c \<in> set (if isFile then file_bytes fs filename else filename).
        get T (int_of_char signed_char c) =
          Inr (of_nat (count_list (if isFile then file_bytes fs filename else filename) c))) \<and>
     get T 256 = Inr 1 \<and>
     (\<forall>k \<in> set (keys T). - 128 \<le> sint k \<and> sint k \<le> 256) \<and>
     (\<not> signed_char \<longrightarrow>
        set (keys T) = insert 256 ((\<lambda>c. of_nat (of_char c)) `
                          set (if isFile then file_bytes fs filename else filename)) \<and>
        (\<forall>k \<in> set (keys T). 0 \<le> sint k \<and> sint k \<le> 256))"
proof -
  let ?cs = "if isFile then file_bytes fs filename else filename"
  let ?f = "int_of_char signed_char"
  from buildFrequencyMap_lookup [of signed_char fs filename isFile]
  obtain T where T: "buildFrequencyMap signed_char fs filename isFile hashmap_init = Inr T"
    "hashmap_inv T" "lookup T = (tally signed_char ?cs Map.empty)(256 \<mapsto> 1)"
    by blast
  have dom: "dom (lookup T) = insert 256 (?f ` set ?cs)"
    unfolding T(3) by (auto simp add: tally_def dom_def)
  have k: "set (keys T) = insert 256 (?f ` set ?cs)"
    using keys_dom [OF T(2)] dom by simp
  have d: "distinct (keys T)" using T(2) by (rule keys_distinct)
  have g: "get T (?f c) = Inr (of_nat (count_list ?cs c))" if "c \<in> set ?cs" for c
  proof -
    have "lookup T (?f c) = Some (of_nat (count_list (map ?f ?cs) (?f c)))"
      using that unfolding T(3) by (simp add: tally_def int_of_char_not_256)
    moreover have "count_list (map ?f ?cs) (?f c) = count_list ?cs c"
      by (rule count_list_map_inj) (rule int_of_char_inj)
    ultimately show ?thesis using T(2) by (simp add: get_present)
  qed
  have e: "get T 256 = Inr 1"
    using T(2) by (rule get_present) (simp add: T(3))
  have r: "- 128 \<le> sint x \<and> sint x \<le> 256" if "x \<in> set (keys T)" for x
  proof (cases "x = 256")
    case True
    then show ?thesis by simp
  next
    case False
    with that k obtain c where "x = ?f c" by auto
    then show ?thesis using char_code_range [of signed_char c] by (simp add: sint_int_of_char)
  qed
  have u: "0 \<le> sint x \<and> sint x \<le> 256" if "x \<in> set (keys T)" "\<not> signed_char" for x
  proof (cases "x = 256")
    case True
    then show ?thesis by simp
  next
    case False
    with that k obtain c where "x = int_of_char False c" by auto
    then show ?thesis using char_code_unsigned_range [of c] by (simp add: sint_int_of_char)
  qed
  have k': "set (keys T) = insert 256 ((\<lambda>c. of_nat (of_char c)) ` set ?cs)" if "\<not> signed_char"
    using that k by (simp add: int_of_char_def [abs_def])
  show ?thesis
  proof (intro exI [of _ T] conjI ballI impI)
    show "buildFrequencyMap signed_char fs filename isFile hashmap_init = Inr T" by (fact T(1))
    show "set (keys T) = insert 256 (?f ` set ?cs)" by (fact k)
    show "distinct (keys T)" by (fact d)
    show "get T (?f c) = Inr (of_nat (count_list ?cs c))" if "c \<in> set ?cs" for c
      using that by (rule g)
    show "get T 256 = Inr 1" by (fact e)
    show "- 128 \<le> sint x" if "x \<in> set (keys T)" for x using r [OF that] by simp
    show "sint x \<le> 256" if "x \<in> set (keys T)" for x using r [OF that] by simp
    show "set (keys T) = insert 256 ((\<lambda>c. of_nat (of_char c)) ` set ?cs)" if "\<not> signed_char"
      using that by (rule k')
    show "0 \<le> sint x" if "\<not> signed_char" "x \<in> set (keys T)" for x
      using u [OF that(2,1)] by simp
    show "sint x \<le> 256" if "\<not> signed_char" "x \<in> set (keys T)" for x
      using u [OF that(2,1)] by simp
  qed
qed

lemma buildFrequencyMap_aab:
  "buildFrequencyMap True Map.empty ''aab'' False hashmap_init =
     Inr \<lparr>buckets = [[], [], [(98, 1)], [], [], [(97, 2)], [], [], [], [(256, 1)]],
          nBuckets = 10, nElems = 3\<rparr>"
  by (simp add: table_eval int_of_char_a int_of_char_b hash_97 hash_98 hash_256)

theorem buildFrequencyMap_table_witness:
  "buildFrequencyMap True Map.empty ''aab'' False hashmap_init =
     Inr \<lparr>buckets = [[], [], [(98, 1)], [], [], [(97, 2)], [], [], [], [(256, 1)]],
          nBuckets = 10, nElems = 3\<rparr> \<and>
   set (keys \<lparr>buckets = [[], [], [(98, 1)], [], [], [(97, 2)], [], [], [], [(256, 1)]],
          nBuckets = 10, nElems = 3\<rparr>) = {256, 97, 98} \<and>
   get \<lparr>buckets = [[], [], [(98, 1)], [], [], [(97, 2)], [], [], [], [(256, 1)]],
          nBuckets = 10, nElems = 3\<rparr> 97 = Inr 2 \<and>
   get \<lparr>buckets = [[], [], [(98, 1)], [], [], [(97, 2)], [], [], [], [(256, 1)]],
          nBuckets = 10, nElems = 3\<rparr> 256 = Inr 1"
  using buildFrequencyMap_table [of True Map.empty "''aab''" False]
  by (simp add: buildFrequencyMap_aab int_of_char_a int_of_char_b)

text \<open>
  Where plain \<^verbatim>\<open>char\<close> is signed, the one-byte input \<open>0x80\<close> gives the key \<open>- 128\<close>,
  which is not a byte value in \<open>0 .. 255\<close>.
\<close>

theorem buildFrequencyMap_signed_char_counterexample:
  "buildFrequencyMap True Map.empty [CHR 0x80] False hashmap_init =
     Inr \<lparr>buckets = [[], [], [], [], [], [], [(- 128, 1)], [], [], [(256, 1)]],
          nBuckets = 10, nElems = 2\<rparr> \<and>
   keys \<lparr>buckets = [[], [], [], [], [], [], [(- 128, 1)], [], [], [(256, 1)]],
          nBuckets = 10, nElems = 2\<rparr> = [- 128, 256] \<and>
   sint (- 128 :: int32) = - 128"
  by (simp add: table_eval int_of_char_0x80 hash_minus_128 hash_256 keys_def upt_10)

section \<open>The tree\<close>

text \<open>
  The leaves of a tree are its nodes without children, with their \<^verbatim>\<open>character\<close> and
  \<^verbatim>\<open>count\<close>; \<open>merges\<close> counts the other nodes. A tree is well formed when every node
  with a child has both children, \<^verbatim>\<open>character = 257\<close> and the sum of its children's
  counts as \<^verbatim>\<open>count\<close>.
\<close>

fun leaf_nodes :: "HuffmanNode \<Rightarrow> (int32 \<times> int32) list" where
  "leaf_nodes (HuffmanNode c n z w) =
     (if z = None \<and> w = None then [(c, n)]
      else (case z of None \<Rightarrow> [] | Some a \<Rightarrow> leaf_nodes a) @
           (case w of None \<Rightarrow> [] | Some b \<Rightarrow> leaf_nodes b))"

fun merges :: "HuffmanNode \<Rightarrow> nat" where
  "merges (HuffmanNode c n z w) =
     (if z = None \<and> w = None then 0
      else Suc ((case z of None \<Rightarrow> 0 | Some a \<Rightarrow> merges a) +
                (case w of None \<Rightarrow> 0 | Some b \<Rightarrow> merges b)))"

fun well_formed :: "HuffmanNode \<Rightarrow> bool" where
  "well_formed (HuffmanNode c n z w) =
     (case z of
        None \<Rightarrow> w = None
      | Some a \<Rightarrow>
          (case w of
             None \<Rightarrow> False
           | Some b \<Rightarrow> c = 257 \<and> n = count a + count b \<and> well_formed a \<and> well_formed b))"

definition queue_leaves :: "priority_queue \<Rightarrow> (int32 \<times> int32) multiset" where
  "queue_leaves pq = mset (concat (map leaf_nodes pq))"

lemma queue_leaves_Nil: "queue_leaves [] = {#}"
  by (simp add: queue_leaves_def)

lemma queue_leaves_append: "queue_leaves (xs @ ys) = queue_leaves xs + queue_leaves ys"
  by (simp add: queue_leaves_def)

lemma queue_leaves_single: "queue_leaves [x] = mset (leaf_nodes x)"
  by (simp add: queue_leaves_def)

lemma queue_leaves_remove1:
  "x \<in> set pq \<Longrightarrow> queue_leaves pq = mset (leaf_nodes x) + queue_leaves (remove1 x pq)"
  by (induction pq) (auto simp add: queue_leaves_def)

lemma pq_top_nonempty: "pq \<noteq> [] \<Longrightarrow> \<exists>x. pq_top tie pq = Inr x"
  by (simp add: pq_top_def)

lemma pq_pop_top: "pq_top tie pq = Inr x \<Longrightarrow> pq_pop tie pq = remove1 x pq"
  by (simp add: pq_pop_def)

lemma pq_top_single: "pq_top tie [x] = Inr x"
  by (simp add: pq_top_def candidates_def prioritize_def word_sless_alt)

lemma build_htree_small: "length pq \<le> 1 \<Longrightarrow> build_htree tie pq = Inr pq"
  by (simp add: build_htree.simps)

lemma build_htree_inv:
  assumes "list_all well_formed pq"
  shows "\<exists>pq'. build_htree tie pq = Inr pq' \<and> list_all well_formed pq' \<and>
    queue_leaves pq' = queue_leaves pq \<and> length pq' = min 1 (length pq)"
  using assms
proof (induction tie pq rule: build_htree.induct)
  case (1 tie pq)
  show ?case
  proof (cases "1 < length pq")
    case False
    then have "build_htree tie pq = Inr pq" by (simp add: build_htree_small)
    with False "1.prems" show ?thesis by (cases pq) auto
  next
    case True
    then have ne: "pq \<noteq> []" by auto
    then obtain first where f: "pq_top tie pq = Inr first" using pq_top_nonempty by blast
    then have fin: "first \<in> set pq" by (rule pq_top_in_queue)
    have p1: "pq_pop tie pq = remove1 first pq" using f by (rule pq_pop_top)
    have l1: "Suc (length (pq_pop tie pq)) = length pq" using ne by (rule length_pq_pop)
    with True have ne1: "pq_pop tie pq \<noteq> []" by auto
    then obtain second where s: "pq_top tie (pq_pop tie pq) = Inr second"
      using pq_top_nonempty by blast
    then have sin: "second \<in> set (remove1 first pq)" using pq_top_in_queue p1 by metis
    have p2: "pq_pop tie (pq_pop tie pq) = remove1 second (remove1 first pq)"
      using s p1 by (simp add: pq_pop_top)
    let ?link = "HuffmanNode 257 (count first + count second) (Some first) (Some second)"
    let ?pq2 = "pq_push (pq_pop tie (pq_pop tie pq)) ?link"
    have wf1: "well_formed first" using fin "1.prems" by (simp add: list_all_iff)
    have "second \<in> set pq" using sin by (meson notin_set_remove1)
    then have wf2: "well_formed second" using "1.prems" by (simp add: list_all_iff)
    have wfl: "well_formed ?link" using wf1 wf2 by simp
    have "set (remove1 second (remove1 first pq)) \<subseteq> set pq"
      by (meson notin_set_remove1 subsetI)
    then have wf': "list_all well_formed ?pq2"
      using "1.prems" wfl by (auto simp add: pq_push_def p2 list_all_iff)
    from "1.IH" [OF True f s wf']
    obtain pq' where r: "build_htree tie ?pq2 = Inr pq'" "list_all well_formed pq'"
      "queue_leaves pq' = queue_leaves ?pq2" "length pq' = min 1 (length ?pq2)"
      by blast
    have "build_htree tie pq = build_htree tie ?pq2"
      using True f s by (subst build_htree.simps) simp
    moreover have "queue_leaves ?pq2 = queue_leaves pq"
    proof -
      have "queue_leaves ?pq2 =
          queue_leaves (remove1 second (remove1 first pq)) + mset (leaf_nodes ?link)"
        by (simp add: pq_push_def p2 queue_leaves_append queue_leaves_single)
      also have "mset (leaf_nodes ?link) = mset (leaf_nodes first) + mset (leaf_nodes second)"
        by simp
      finally show ?thesis
        using queue_leaves_remove1 [OF fin] queue_leaves_remove1 [OF sin] by simp
    qed
    moreover have "length ?pq2 \<ge> 1" by (simp add: pq_push_def)
    ultimately show ?thesis using r True by auto
  qed
qed

definition leaf_of :: "hashmap \<Rightarrow> int32 \<Rightarrow> HuffmanNode" where
  "leaf_of freq k = HuffmanNode k (case lookup freq k of None \<Rightarrow> 0 | Some n \<Rightarrow> n) None None"

lemma push_leaves_inv:
  assumes "hashmap_inv freq" "set ks \<subseteq> set (keys freq)"
  shows "push_leaves freq ks pq = Inr (pq @ map (leaf_of freq) ks)"
  using assms(2)
proof (induction ks arbitrary: pq)
  case Nil
  then show ?case by simp
next
  case (Cons k ks)
  then have "k \<in> set (keys freq)" by simp
  then obtain n where n: "lookup freq k = Some n"
    using lookup_Some_iff [OF assms(1), of k] by auto
  then have "get freq k = Inr n" using assms(1) by (simp add: get_present)
  with Cons n show ?case by (simp add: pq_push_def leaf_of_def)
qed

lemma queue_leaves_map_leaf_of:
  "queue_leaves (map (leaf_of freq) ks) =
     mset (map (\<lambda>k. (k, case lookup freq k of None \<Rightarrow> 0 | Some n \<Rightarrow> n)) ks)"
  by (induction ks) (simp_all add: queue_leaves_def leaf_of_def)

lemma buildEncodingTree_inv:
  assumes "hashmap_inv freq" "keys freq \<noteq> []"
  shows "\<exists>t. buildEncodingTree tie freq = Inr t \<and> well_formed t \<and>
    mset (leaf_nodes t) =
      mset (map (\<lambda>k. (k, case lookup freq k of None \<Rightarrow> 0 | Some n \<Rightarrow> n)) (keys freq))"
proof -
  let ?pq = "map (leaf_of freq) (keys freq)"
  have p: "push_leaves freq (keys freq) [] = Inr ?pq"
    using push_leaves_inv [OF assms(1), of "keys freq" "[]"] by simp
  have wf: "list_all well_formed ?pq" by (simp add: list_all_iff leaf_of_def)
  from build_htree_inv [OF wf, of tie]
  obtain pq' where r: "build_htree tie ?pq = Inr pq'" "list_all well_formed pq'"
    "queue_leaves pq' = queue_leaves ?pq" "length pq' = min 1 (length ?pq)"
    by blast
  from r(4) assms(2) have "length pq' = 1" by (cases "keys freq") simp_all
  then obtain t where t: "pq' = [t]" by (cases pq') simp_all
  have "buildEncodingTree tie freq = Inr t"
    by (simp add: buildEncodingTree_def p r(1) t pq_top_single)
  moreover have "well_formed t" using r(2) t by simp
  moreover have "mset (leaf_nodes t) = queue_leaves ?pq"
    using r(3) t by (simp add: queue_leaves_single)
  ultimately show ?thesis by (simp add: queue_leaves_map_leaf_of)
qed

text \<open>An example table, \<^verbatim>\<open>{97:3, 256:1}\<close>, and a tie-break that takes the first candidate.\<close>

definition table_aaa :: hashmap where
  "table_aaa = \<lparr>buckets = [[], [], [], [], [], [(97, 3)], [], [], [], [(256, 1)]],
                 nBuckets = 10, nElems = 2\<rparr>"

definition first_candidate :: tiebreak where
  "first_candidate pq = 0"

lemma key_ok_97: "key_ok 97"
  by (rule small_key_ok) simp_all

lemma hashmap_inv_table_aaa: "hashmap_inv table_aaa"
  by (simp add: hashmap_inv_def table_aaa_def bucket_ok_def upt_10 key_ok_97 key_ok_256
      slot_97 slot_256 entries_def)

lemma keys_table_aaa: "keys table_aaa = [97, 256]"
  by (simp add: keys_def table_aaa_def upt_10)

lemma get_table_aaa: "get table_aaa 97 = Inr 3" "get table_aaa 256 = Inr 1"
  by (simp_all add: get_def bucketIndex_def table_aaa_def hash_97 hash_256 signed_modulo_int_def)

lemma buildEncodingTree_table_aaa:
  "buildEncodingTree first_candidate table_aaa =
     Inr (HuffmanNode 257 4 (Some (HuffmanNode 256 1 None None)) (Some (HuffmanNode 97 3 None None)))"
  by (simp add: buildEncodingTree_def keys_table_aaa get_table_aaa pq_push_def
      build_htree.simps pq_top_def pq_pop_def candidates_def prioritize_def word_sless_alt
      first_candidate_def)

text \<open>
  C6. For a well-formed table with at least one key, \<^verbatim>\<open>buildEncodingTree\<close> returns a
  well-formed tree (every inner node holds 257 and the sum of its children's counts, in
  32-bit arithmetic) whose leaves carry the keys of the table, each key once and nothing
  else, each with the count the table has for it. A table with one key gives a single
  leaf and no merge.
\<close>

theorem buildEncodingTree_leaves:
  assumes "hashmap_inv freq" "keys freq \<noteq> []"
  shows "\<exists>t. buildEncodingTree tie freq = Inr t \<and> well_formed t \<and>
    mset (map fst (leaf_nodes t)) = mset (keys freq) \<and> distinct (map fst (leaf_nodes t)) \<and>
    list_all (\<lambda>kn. get freq (fst kn) = Inr (snd kn)) (leaf_nodes t) \<and>
    (length (keys freq) = 1 \<longrightarrow>
       merges t = 0 \<and> zero t = None \<and> one t = None \<and> character t = hd (keys freq))"
proof -
  let ?v = "\<lambda>k. (k, case lookup freq k of None \<Rightarrow> 0 | Some n \<Rightarrow> n)"
  from buildEncodingTree_inv [OF assms, of tie]
  obtain t where t: "buildEncodingTree tie freq = Inr t" "well_formed t"
    "mset (leaf_nodes t) = mset (map ?v (keys freq))" by blast
  have "mset (map fst (leaf_nodes t)) = image_mset fst (mset (leaf_nodes t))"
    by simp
  also have "\<dots> = image_mset fst (mset (map ?v (keys freq)))"
    by (simp only: t(3))
  also have "\<dots> = mset (keys freq)"
    by (simp add: image_mset.compositionality comp_def)
  finally have m: "mset (map fst (leaf_nodes t)) = mset (keys freq)" .
  have d: "distinct (map fst (leaf_nodes t))"
    using m keys_distinct [OF assms(1)] by (metis mset_eq_imp_distinct_iff)
  have g: "list_all (\<lambda>kn. get freq (fst kn) = Inr (snd kn)) (leaf_nodes t)"
  proof -
    have "get freq (fst kn) = Inr (snd kn)" if "kn \<in> set (leaf_nodes t)" for kn
    proof -
      from that have "kn \<in># mset (leaf_nodes t)" by simp
      then have "kn \<in># mset (map ?v (keys freq))" by (simp only: t(3))
      then obtain k where k: "k \<in> set (keys freq)" "kn = ?v k" by auto
      then obtain n where "lookup freq k = Some n"
        using lookup_Some_iff [OF assms(1), of k] by auto
      with k assms(1) show ?thesis by (simp add: get_present)
    qed
    then show ?thesis by (simp add: list_all_iff)
  qed
  have s: "merges t = 0 \<and> zero t = None \<and> one t = None \<and> character t = hd (keys freq)"
    if "length (keys freq) = 1"
  proof -
    from that obtain k where k: "keys freq = [k]" by (cases "keys freq") simp_all
    have "push_leaves freq (keys freq) [] = Inr [leaf_of freq k]"
      using push_leaves_inv [OF assms(1), of "keys freq" "[]"] k by simp
    then have "buildEncodingTree tie freq = Inr (leaf_of freq k)"
      by (simp add: buildEncodingTree_def build_htree_small pq_top_single)
    with t(1) have "t = leaf_of freq k" by simp
    then show ?thesis by (simp add: leaf_of_def k)
  qed
  from t(1,2) m d g s show ?thesis by blast
qed

theorem buildEncodingTree_leaves_witness:
  "hashmap_inv table_aaa \<and> keys table_aaa = [97, 256] \<and>
   buildEncodingTree first_candidate table_aaa =
     Inr (HuffmanNode 257 4 (Some (HuffmanNode 256 1 None None)) (Some (HuffmanNode 97 3 None None))) \<and>
   well_formed (HuffmanNode 257 4 (Some (HuffmanNode 256 1 None None)) (Some (HuffmanNode 97 3 None None))) \<and>
   mset (map fst (leaf_nodes
     (HuffmanNode 257 4 (Some (HuffmanNode 256 1 None None)) (Some (HuffmanNode 97 3 None None)))))
     = mset (keys table_aaa)"
  using buildEncodingTree_leaves [OF hashmap_inv_table_aaa, of first_candidate]
  by (simp add: hashmap_inv_table_aaa keys_table_aaa buildEncodingTree_table_aaa)

section \<open>Codewords\<close>

text \<open>
  \<open>codes\<close> lists what \<^verbatim>\<open>_buildEncodingMap\<close> inserts, in the order of its insertions.
\<close>

fun codes :: "HuffmanNode \<Rightarrow> string \<Rightarrow> (int32 \<times> string) list" where
  "codes (HuffmanNode c n z w) str =
     (case z of None \<Rightarrow> [] | Some node0 \<Rightarrow> codes node0 (str @ ''0'')) @
     (case w of None \<Rightarrow> [] | Some node1 \<Rightarrow> codes node1 (str @ ''1'')) @
     (if c \<noteq> 257 then [(c, str)] else [])"

definition insert_all :: "hashmapE \<Rightarrow> (int32 \<times> string) list \<Rightarrow> hashmapE" where
  "insert_all m cs = foldl (\<lambda>m cs. insert_E m (fst cs) (snd cs)) m cs"

lemma insert_all_append: "insert_all m (xs @ ys) = insert_all (insert_all m xs) ys"
  by (simp add: insert_all_def)

lemma buildEncodingMap_rec_codes:
  "buildEncodingMap_rec t m str = insert_all m (codes t str)"
proof (induction t m str rule: buildEncodingMap_rec.induct)
  case (1 c n z w encodingMap str)
  show ?case
  proof (cases z)
    case None
    note z = this
    show ?thesis
    proof (cases w)
      case None
      with z show ?thesis by (simp add: insert_all_def)
    next
      case (Some b)
      with z "1.IH"(2) [of encodingMap b] show ?thesis
        by (simp add: insert_all_def)
    qed
  next
    case (Some a)
    note z = this
    show ?thesis
    proof (cases w)
      case None
      with z "1.IH"(1) [of a] show ?thesis by (simp add: insert_all_def)
    next
      case (Some b)
      with z "1.IH"(1) [of a] "1.IH"(2) [of "buildEncodingMap_rec a encodingMap (str @ ''0'')" b]
      show ?thesis by (simp add: insert_all_def)
    qed
  qed
qed

lemma insert_all_Some:
  "insert_all m cs k = Some s \<Longrightarrow> m k = Some s \<or> (k, s) \<in> set cs"
proof (induction cs arbitrary: m)
  case Nil
  then show ?case by (simp add: insert_all_def)
next
  case (Cons x cs)
  from Cons.prems have "insert_all (insert_E m (fst x) (snd x)) cs k = Some s"
    by (simp add: insert_all_def)
  from Cons.IH [OF this] show ?case
    by (cases x) (auto simp add: insert_E_def split: if_splits)
qed

lemma codes_extend: "(c, s) \<in> set (codes t str) \<Longrightarrow> prefix str s"
proof (induction t str arbitrary: s rule: codes.induct)
  case (1 c' n z w str)
  from "1.prems" consider
      (l) x where "z = Some x" "(c, s) \<in> set (codes x (str @ ''0''))"
    | (r) y where "w = Some y" "(c, s) \<in> set (codes y (str @ ''1''))"
    | (self) "s = str"
    by (auto split: option.splits if_splits)
  then show ?case
  proof cases
    case l
    from "1.IH"(1) [OF l] show ?thesis by (rule append_prefixD)
  next
    case r
    from "1.IH"(2) [OF r] show ?thesis by (rule append_prefixD)
  next
    case self
    then show ?thesis by simp
  qed
qed

lemma codes_prefix_free:
  assumes "well_formed t" "(a, ca) \<in> set (codes t str)" "(b, cb) \<in> set (codes t str)"
    "prefix ca cb"
  shows "a = b \<and> ca = cb"
  using assms
proof (induction t str arbitrary: a b ca cb rule: codes.induct)
  case (1 c n z w str)
  show ?case
  proof (cases z)
    case None
    with "1.prems" show ?thesis by (auto split: option.splits if_splits)
  next
    case (Some x)
    with "1.prems"(1) obtain y where w: "w = Some y" and c: "c = 257"
      and wf: "well_formed x" "well_formed y"
      by (auto split: option.splits)
    have clash: False
      if "prefix (str @ ''0'') u" "prefix (str @ ''1'') v" "prefix u v \<or> prefix v u" for u v
    proof -
      from that have "prefix (str @ ''0'') v \<or> prefix (str @ ''1'') u"
        using prefix_order.order_trans by blast
      with that(1,2) have "prefix (str @ ''0'') (str @ ''1'') \<or> prefix (str @ ''1'') (str @ ''0'')"
        by (metis prefix_same_cases)
      then show False by simp
    qed
    from "1.prems"(2,3) Some w c
    consider (ll) "(a, ca) \<in> set (codes x (str @ ''0''))" "(b, cb) \<in> set (codes x (str @ ''0''))"
      | (rr) "(a, ca) \<in> set (codes y (str @ ''1''))" "(b, cb) \<in> set (codes y (str @ ''1''))"
      | (lr) "(a, ca) \<in> set (codes x (str @ ''0''))" "(b, cb) \<in> set (codes y (str @ ''1''))"
      | (rl) "(a, ca) \<in> set (codes y (str @ ''1''))" "(b, cb) \<in> set (codes x (str @ ''0''))"
      by auto
    then show ?thesis
    proof cases
      case ll
      from "1.IH"(1) [OF Some wf(1) ll "1.prems"(4)] show ?thesis .
    next
      case rr
      from "1.IH"(2) [OF w wf(2) rr "1.prems"(4)] show ?thesis .
    next
      case lr
      then have "prefix (str @ ''0'') ca" "prefix (str @ ''1'') cb"
        by (auto dest: codes_extend)
      with clash [of ca cb] "1.prems"(4) show ?thesis by blast
    next
      case rl
      then have "prefix (str @ ''1'') ca" "prefix (str @ ''0'') cb"
        by (auto dest: codes_extend)
      with clash [of cb ca] "1.prems"(4) show ?thesis by blast
    qed
  qed
qed

lemma push_leaves_well_formed:
  "list_all well_formed pq \<Longrightarrow> push_leaves freq ks pq = Inr pq' \<Longrightarrow> list_all well_formed pq'"
proof (induction ks arbitrary: pq)
  case Nil
  then show ?case by simp
next
  case (Cons k ks)
  from Cons.prems(2) obtain n where n: "get freq k = Inr n"
    "push_leaves freq ks (pq_push pq (HuffmanNode k n None None)) = Inr pq'"
    by (auto split: sum.splits)
  have "list_all well_formed (pq_push pq (HuffmanNode k n None None))"
    using Cons.prems(1) by (simp add: pq_push_def)
  from Cons.IH [OF this n(2)] show ?case .
qed

lemma buildEncodingTree_well_formed:
  assumes "buildEncodingTree tie freq = Inr t"
  shows "well_formed t"
proof -
  from assms obtain pq where pq: "push_leaves freq (keys freq) [] = Inr pq"
    by (auto simp add: buildEncodingTree_def split: sum.splits)
  have wf: "list_all well_formed pq"
    using push_leaves_well_formed [OF _ pq] by simp
  from build_htree_inv [OF wf, of tie] obtain pq' where
    r: "build_htree tie pq = Inr pq'" "list_all well_formed pq'" by blast
  with assms pq have "pq_top tie pq' = Inr t" by (simp add: buildEncodingTree_def)
  then have "t \<in> set pq'" by (rule pq_top_in_queue)
  with r(2) show ?thesis by (simp add: list_all_iff)
qed

lemma buildEncodingMap_Some:
  "buildEncodingMap t k = Some s \<Longrightarrow> (k, s) \<in> set (codes t [])"
  using insert_all_Some [of Map.empty "codes t []" k s]
  by (simp add: buildEncodingMap_def buildEncodingMap_rec_codes)

text \<open>
  C5. In the encoding map of a tree built by \<^verbatim>\<open>buildEncodingTree\<close>, the codeword of one
  symbol is never a prefix of the codeword of another symbol.
\<close>

theorem encoding_map_prefix_free:
  assumes "buildEncodingTree tie freq = Inr t"
    and "buildEncodingMap t a = Some ca" and "buildEncodingMap t b = Some cb" and "a \<noteq> b"
  shows "\<not> prefix ca cb"
proof
  assume p: "prefix ca cb"
  have "well_formed t" using assms(1) by (rule buildEncodingTree_well_formed)
  moreover have "(a, ca) \<in> set (codes t [])" using assms(2) by (rule buildEncodingMap_Some)
  moreover have "(b, cb) \<in> set (codes t [])" using assms(3) by (rule buildEncodingMap_Some)
  ultimately have "a = b \<and> ca = cb" using p by (rule codes_prefix_free)
  with assms(4) show False by simp
qed

lemma buildEncodingMap_aaa:
  "buildEncodingMap
     (HuffmanNode 257 4 (Some (HuffmanNode 256 1 None None)) (Some (HuffmanNode 97 3 None None))) =
   [256 \<mapsto> ''0'', 97 \<mapsto> ''1'']"
  by (simp add: buildEncodingMap_def insert_E_def)

theorem encoding_map_prefix_free_witness:
  "buildEncodingTree first_candidate table_aaa =
     Inr (HuffmanNode 257 4 (Some (HuffmanNode 256 1 None None)) (Some (HuffmanNode 97 3 None None))) \<and>
   buildEncodingMap
     (HuffmanNode 257 4 (Some (HuffmanNode 256 1 None None)) (Some (HuffmanNode 97 3 None None))) 97
     = Some ''1'' \<and>
   buildEncodingMap
     (HuffmanNode 257 4 (Some (HuffmanNode 256 1 None None)) (Some (HuffmanNode 97 3 None None))) 256
     = Some ''0'' \<and>
   (97 :: int32) \<noteq> 256 \<and> \<not> prefix ''1'' ''0''"
  using encoding_map_prefix_free [OF buildEncodingTree_table_aaa, of 97 "''1''" 256 "''0''"]
  by (simp add: buildEncodingTree_table_aaa buildEncodingMap_aaa)

section \<open>The empty input\<close>

definition table_empty_input :: hashmap where
  "table_empty_input = \<lparr>buckets = [[], [], [], [], [], [], [], [], [], [(256, 1)]],
                         nBuckets = 10, nElems = 1\<rparr>"

lemma buildFrequencyMap_empty:
  "buildFrequencyMap signed_char fs [] False hashmap_init = Inr table_empty_input"
  by (simp add: table_eval hash_256 table_empty_input_def)

lemma buildFrequencyMap_empty_file:
  "buildFrequencyMap signed_char (fs(filename \<mapsto> [])) filename True hashmap_init =
     Inr table_empty_input"
  by (simp add: table_eval hash_256 table_empty_input_def file_bytes_def)

lemma keys_table_empty_input: "keys table_empty_input = [256]"
  by (simp add: keys_def table_empty_input_def upt_10)

lemma get_table_empty_input: "get table_empty_input 256 = Inr 1"
  by (simp add: get_def bucketIndex_def table_empty_input_def hash_256 signed_modulo_int_def)

lemma show_int_256: "show_int 256 = ''256''"
  by code_simp

lemma show_int_1: "show_int 1 = ''1''"
  by code_simp

lemma buildEncodingTree_empty_input:
  "buildEncodingTree tie table_empty_input = Inr (HuffmanNode 256 1 None None)"
  by (simp add: buildEncodingTree_def keys_table_empty_input get_table_empty_input pq_push_def
      build_htree_small pq_top_single)

lemma decode_eos_leaf:
  "decode inp (HuffmanNode 256 1 None None) os = Some (Inr ([], inp, os))"
  by (simp add: decode_def decode_loop.simps)

text \<open>
  C8. The empty input, from a file or from a string: the table is \<^verbatim>\<open>{256:1}\<close>, the tree is
  the single leaf 256, the encoding map gives 256 the empty codeword, \<^verbatim>\<open>encode\<close> returns
  no bit, leaves the bit count at 0 and writes nothing, and \<^verbatim>\<open>decode\<close> returns the empty
  string with the stream as it was.
\<close>

theorem empty_input_pipeline:
  "buildFrequencyMap signed_char (fs(filename \<mapsto> [])) filename True hashmap_init =
     Inr table_empty_input \<and>
   buildFrequencyMap signed_char fs [] False hashmap_init = Inr table_empty_input \<and>
   keys table_empty_input = [256] \<and> get table_empty_input 256 = Inr 1 \<and>
   operator_out [] table_empty_input = Inr ''{256:1}'' \<and>
   buildEncodingTree tie table_empty_input = Inr (HuffmanNode 256 1 None None) \<and>
   buildEncodingMap (HuffmanNode 256 1 None None) = [256 \<mapsto> []] \<and>
   encode signed_char [] [256 \<mapsto> []] out 0 makeFile = ([], [256 \<mapsto> []], out, 0) \<and>
   decode inp (HuffmanNode 256 1 None None) os = Some (Inr ([], inp, os))"
proof -
  have "operator_out [] table_empty_input = Inr ''{256:1}''"
    by (simp add: operator_out_def keys_table_empty_input get_table_empty_input
        show_int_256 show_int_1)
  moreover have "buildEncodingMap (HuffmanNode 256 1 None None) = [256 \<mapsto> []]"
    by (simp add: buildEncodingMap_def insert_E_def)
  moreover have "encode signed_char [] [256 \<mapsto> []] out 0 makeFile = ([], [256 \<mapsto> []], out, 0)"
    by (simp add: encode_def index_E_def write_bits_def)
  ultimately show ?thesis
    by (simp only: buildFrequencyMap_empty buildFrequencyMap_empty_file keys_table_empty_input
        get_table_empty_input buildEncodingTree_empty_input decode_eos_leaf simp_thms)
qed

section \<open>Printing and reading integers\<close>

lemma of_char_digit: "d < 10 \<Longrightarrow> (of_char (char_of (48 + d :: nat)) :: nat) = 48 + d"
  by (simp add: of_char_of)

lemma digits_value_snoc:
  "digits_value (ds @ [c]) = 10 * digits_value ds + (of_char c - 48)"
  by (simp add: digits_value_def)

lemma digits_of_nonempty: "digits_of n \<noteq> []"
  by (subst digits_of.simps) simp

lemma digits_of_isdigit: "c \<in> set (digits_of n) \<Longrightarrow> isdigit c"
proof (induction n rule: digits_of.induct)
  case (1 n)
  show ?case
  proof (cases "n < 10")
    case True
    with "1.prems" have "c = char_of (48 + n)" by (subst (asm) digits_of.simps) simp
    with True show ?thesis by (simp add: isdigit_def of_char_digit)
  next
    case False
    with "1.prems" have "c \<in> set (digits_of (n div 10)) \<or> c = char_of (48 + n mod 10)"
      by (subst (asm) digits_of.simps) auto
    then show ?thesis
    proof
      assume "c \<in> set (digits_of (n div 10))"
      with "1.IH" False show ?thesis by simp
    next
      assume "c = char_of (48 + n mod 10)"
      then show ?thesis by (simp add: isdigit_def of_char_digit)
    qed
  qed
qed

lemma digits_value_digits_of: "digits_value (digits_of n) = n"
proof (induction n rule: digits_of.induct)
  case (1 n)
  show ?case
  proof (cases "n < 10")
    case True
    then show ?thesis
      by (subst digits_of.simps) (simp add: digits_value_def of_char_digit)
  next
    case False
    with "1.IH" have "digits_value (digits_of (n div 10)) = n div 10" by simp
    with False show ?thesis
      by (subst digits_of.simps) (simp add: digits_value_snoc of_char_digit)
  qed
qed

lemma isdigit_not_space: "isdigit c \<Longrightarrow> \<not> isspace c"
  by (auto simp add: isdigit_def isspace_def)

lemma isdigit_not_sign: "isdigit c \<Longrightarrow> c \<noteq> CHR ''-'' \<and> c \<noteq> CHR ''+''"
  by (auto simp add: isdigit_def)

lemma stoi_digits:
  assumes "ds \<noteq> []" "\<forall>c \<in> set ds. isdigit c" "digits_value ds < 2147483648"
  shows "stoi ds = Inr (of_nat (digits_value ds))"
proof -
  from assms(1,2) have d: "isdigit (hd ds)" by (cases ds) auto
  have t: "takeWhile isdigit ds = ds" using assms(2) by (simp add: takeWhile_eq_all_conv)
  have a: "dropWhile isspace ds = ds"
    using d assms(1) by (cases ds) (auto simp add: isdigit_not_space)
  have "stoi ds = (if ds = [] then Inl InvalidArgument
      else if int (digits_value ds) < - 2147483648 \<or> 2147483647 < int (digits_value ds)
        then Inl OutOfRange else Inr (word_of_int (int (digits_value ds))))"
    unfolding stoi_def Let_def a using isdigit_not_sign [OF d] assms(1)
    by (simp only: t if_False simp_thms)
  with assms(1,3) show ?thesis by simp
qed

lemma stoi_minus_digits:
  assumes "ds \<noteq> []" "\<forall>c \<in> set ds. isdigit c" "digits_value ds \<le> 2147483648"
  shows "stoi (CHR ''-'' # ds) = Inr (word_of_int (- int (digits_value ds)))"
proof -
  have t: "takeWhile isdigit ds = ds" using assms(2) by (simp add: takeWhile_eq_all_conv)
  have a: "dropWhile isspace (CHR ''-'' # ds) = CHR ''-'' # ds" by (simp add: isspace_def)
  have "stoi (CHR ''-'' # ds) = (if ds = [] then Inl InvalidArgument
      else if - int (digits_value ds) < - 2147483648 \<or> 2147483647 < - int (digits_value ds)
        then Inl OutOfRange else Inr (word_of_int (- int (digits_value ds))))"
    unfolding stoi_def Let_def a
    by (simp only: list.sel t if_True simp_thms list.distinct)
  with assms(1,3) show ?thesis by simp
qed

lemma stoi_show_int: "stoi (show_int n) = Inr n"
proof (cases "n <s 0")
  case True
  then have neg: "sint n < 0" by (simp add: word_sless_alt)
  have lo: "- 2147483648 \<le> sint n" using sint_ge [of n] by simp
  let ?m = "nat (- sint n)"
  have "stoi (CHR ''-'' # digits_of ?m) = Inr (word_of_int (- int (digits_value (digits_of ?m))))"
    using lo neg
    by (intro stoi_minus_digits) (auto simp add: digits_of_nonempty digits_of_isdigit
        digits_value_digits_of)
  also have "- int (digits_value (digits_of ?m)) = sint n"
    using neg by (simp add: digits_value_digits_of)
  finally show ?thesis using True by (simp add: show_int_def)
next
  case False
  then have pos: "0 \<le> sint n" by (simp add: word_sless_alt)
  have hi: "sint n < 2147483648" using sint_lt [of n] by simp
  let ?m = "nat (sint n)"
  have "stoi (digits_of ?m) = Inr (of_nat (digits_value (digits_of ?m)))"
    using hi pos
    by (intro stoi_digits) (auto simp add: digits_of_nonempty digits_of_isdigit
        digits_value_digits_of)
  also have "(of_nat (digits_value (digits_of ?m)) :: int32) = word_of_int (sint n)"
    using pos by (simp add: digits_value_digits_of)
  finally show ?thesis using False by (simp add: show_int_def)
qed

definition plain :: "string \<Rightarrow> bool" where
  "plain s = (\<forall>c \<in> set s. c \<noteq> CHR '','' \<and> c \<noteq> CHR ''}'' \<and> c \<noteq> CHR '':'')"

lemma isdigit_plain: "isdigit c \<Longrightarrow> c \<noteq> CHR '','' \<and> c \<noteq> CHR ''}'' \<and> c \<noteq> CHR '':''"
  by (auto simp add: isdigit_def)

lemma plain_show_int: "plain (show_int n)"
  using digits_of_isdigit isdigit_plain by (auto simp add: plain_def show_int_def)

lemma show_int_nonempty: "show_int n \<noteq> []"
  by (simp add: show_int_def digits_of_nonempty)

section \<open>The header\<close>

definition entry_text :: "key_val_pair \<Rightarrow> string" where
  "entry_text kv = show_int (fst kv) @ '':'' @ show_int (snd kv)"

fun render_entries :: "key_val_pair list \<Rightarrow> string" where
  "render_entries [] = []"
| "render_entries [kv] = entry_text kv"
| "render_entries (kv # kv' # es) = entry_text kv @ '', '' @ render_entries (kv' # es)"

definition good :: "ibitstream \<Rightarrow> bool" where
  "good inp = (\<not> eofbit inp \<and> \<not> failbit inp)"

definition advance :: "ibitstream \<Rightarrow> nat \<Rightarrow> ibitstream" where
  "advance inp n = inp\<lparr>rest := drop n (rest inp), gpos := gpos inp + n\<rparr>"

lemma good_advance: "good (advance inp n) = good inp"
  by (simp add: good_def advance_def)

lemma advance_advance: "advance (advance inp n) m = advance inp (n + m)"
  by (simp add: advance_def add.commute)

lemma rest_advance: "rest (advance inp n) = drop n (rest inp)"
  by (simp add: advance_def)

lemma stream_get_good:
  "good inp \<Longrightarrow> rest inp = c # cs \<Longrightarrow> stream_get inp = (int (of_char c), advance inp 1)"
  by (simp add: stream_get_def good_def advance_def)

lemma char_code_eq: "(int (of_char c) = int (of_char d)) = (c = d)"
  by simp

lemma comma_code: "int (of_char CHR '','') = 44" by simp
lemma brace_code: "int (of_char CHR ''}'') = 125" by simp

lemma separator_iff:
  "(int (of_char c) \<noteq> 44 \<and> int (of_char c) \<noteq> 125) = (c \<noteq> CHR '','' \<and> c \<noteq> CHR ''}'')"
  using char_code_eq [of c "CHR '',''"] char_code_eq [of c "CHR ''}''"]
  by (simp only: comma_code brace_code)

lemma read_input_stop:
  "c = CHR '','' \<or> c = CHR ''}'' \<Longrightarrow> read_input (int (of_char c)) acc inp = Inr (int (of_char c), acc, inp)"
  by (subst read_input.simps) auto

lemma read_input_body:
  assumes "good inp" "rest inp = body @ d # tail"
    "\<forall>c \<in> set (c0 # body). c \<noteq> CHR '','' \<and> c \<noteq> CHR ''}''" "d = CHR '','' \<or> d = CHR ''}''"
  shows "read_input (int (of_char c0)) acc inp =
    Inr (int (of_char d), acc @ c0 # body, advance inp (length body + 1))"
  using assms
proof (induction body arbitrary: c0 acc inp)
  case Nil
  have sep: "int (of_char c0) \<noteq> 44 \<and> int (of_char c0) \<noteq> 125"
    using Nil.prems(3) by (simp only: separator_iff) simp
  have g: "stream_get inp = (int (of_char d), advance inp 1)"
    using Nil.prems(1,2) by (simp add: stream_get_good)
  have "read_input (int (of_char c0)) acc inp = read_input (int (of_char d)) (acc @ [c0]) (advance inp 1)"
    using sep g by (subst read_input.simps) simp
  then show ?case using Nil.prems(4) by (simp add: read_input_stop)
next
  case (Cons b body)
  have sep: "int (of_char c0) \<noteq> 44 \<and> int (of_char c0) \<noteq> 125"
    using Cons.prems(3) by (simp only: separator_iff) simp
  have g: "stream_get inp = (int (of_char b), advance inp 1)"
    using Cons.prems(1,2) by (simp add: stream_get_good)
  have step: "read_input (int (of_char c0)) acc inp =
      read_input (int (of_char b)) (acc @ [c0]) (advance inp 1)"
    using sep g by (subst read_input.simps) simp
  have "read_input (int (of_char b)) (acc @ [c0]) (advance inp 1) =
      Inr (int (of_char d), (acc @ [c0]) @ b # body, advance (advance inp 1) (length body + 1))"
    using Cons.prems by (intro Cons.IH) (simp_all add: good_advance rest_advance)
  with step show ?case by (simp add: advance_advance)
qed

lemma plain_entry_text:
  "\<forall>c \<in> set (entry_text kv). c \<noteq> CHR '','' \<and> c \<noteq> CHR ''}''"
  using plain_show_int [of "fst kv"] plain_show_int [of "snd kv"]
  by (auto simp add: entry_text_def plain_def)

lemma entry_text_nonempty: "entry_text kv \<noteq> []"
  by (simp add: entry_text_def)

lemma find_colon_entry:
  "find_colon (show_int k @ CHR '':'' # show_int v) = Some (length (show_int k))"
proof -
  have "\<forall>c \<in> set (show_int k). c \<noteq> CHR '':''"
    using plain_show_int [of k] by (simp add: plain_def)
  then have "takeWhile (\<lambda>c. c \<noteq> CHR '':'') (show_int k @ CHR '':'' # show_int v) = show_int k"
    by (simp add: takeWhile_tail)
  then show ?thesis by (simp add: find_colon_def)
qed

lemma put_input_entry: "put_input m (entry_text (k, v)) = put m k v"
  by (simp add: put_input_def entry_text_def find_colon_entry stoi_show_int Let_def)

lemma operator_in_loop_last:
  assumes "read_input nextChar [] inp = Inr (c, nextInput, inp1)" "nextInput \<noteq> []" "c \<noteq> 44"
  shows "operator_in_loop nextChar inp m =
    (case put_input m nextInput of Inl e \<Rightarrow> Inl e | Inr m' \<Rightarrow> Inr (inp1, m'))"
  using assms by (subst operator_in_loop.simps) (simp split: sum.splits)

lemma operator_in_loop_next:
  assumes "read_input nextChar [] inp = Inr (44, nextInput, inp1)" "nextInput \<noteq> []"
    "stream_get inp1 = (x, inp2)" "stream_get inp2 = (c', inp3)"
  shows "operator_in_loop nextChar inp m =
    (case put_input m nextInput of Inl e \<Rightarrow> Inl e | Inr m' \<Rightarrow> operator_in_loop c' inp3 m')"
  using assms by (subst operator_in_loop.simps) (simp split: sum.splits)

lemma advance_twice: "advance (advance inp 1) 1 = advance inp 2"
  by (simp add: advance_advance numeral_2_eq_2)

lemma operator_in_loop_entries:
  assumes "good inp" "es \<noteq> []" "rest inp = tl (render_entries es) @ CHR ''}'' # tail"
  shows "operator_in_loop (int (of_char (hd (render_entries es)))) inp m =
    (case put_all m es of
       Inl e \<Rightarrow> Inl e
     | Inr m' \<Rightarrow> Inr (advance inp (length (render_entries es)), m'))"
  using assms
proof (induction es arbitrary: inp m rule: render_entries.induct)
  case 1
  then show ?case by simp
next
  case (2 kv)
  obtain c0 body where e: "entry_text kv = c0 # body"
    using entry_text_nonempty [of kv] by (cases "entry_text kv") auto
  have "read_input (int (of_char c0)) [] inp =
      Inr (int (of_char CHR ''}''), [] @ c0 # body, advance inp (length body + 1))"
    using "2.prems"(1,3) plain_entry_text [of kv] e by (intro read_input_body) simp_all
  then have r: "read_input (int (of_char c0)) [] inp =
      Inr (125, c0 # body, advance inp (length body + 1))"
    by simp
  have "operator_in_loop (int (of_char c0)) inp m =
      (case put_input m (c0 # body) of Inl e \<Rightarrow> Inl e
       | Inr m' \<Rightarrow> Inr (advance inp (length body + 1), m'))"
    by (rule operator_in_loop_last [OF r]) simp_all
  moreover have "put_input m (c0 # body) = put m (fst kv) (snd kv)"
    using put_input_entry [of m "fst kv" "snd kv"] e by simp
  ultimately show ?case
    using e by (cases kv) (simp split: sum.splits)
next
  case (3 kv kv' es)
  obtain c0 body where e: "entry_text kv = c0 # body"
    using entry_text_nonempty [of kv] by (cases "entry_text kv") auto
  let ?R = "render_entries (kv' # es)"
  have Rne: "?R \<noteq> []"
    using entry_text_nonempty [of kv'] by (cases es) simp_all
  then obtain r0 R' where R: "?R = r0 # R'" by (cases ?R) auto
  have rest: "rest inp = body @ CHR '','' # CHR '' '' # ?R @ CHR ''}'' # tail"
    using "3.prems"(3) e by simp
  have "read_input (int (of_char c0)) [] inp =
      Inr (int (of_char CHR '',''), [] @ c0 # body, advance inp (length body + 1))"
    using "3.prems"(1) rest plain_entry_text [of kv] e by (intro read_input_body) simp_all
  then have r: "read_input (int (of_char c0)) [] inp =
      Inr (44, c0 # body, advance inp (length body + 1))"
    by simp
  let ?inp1 = "advance inp (length body + 1)"
  have rest1: "rest ?inp1 = CHR '' '' # r0 # R' @ CHR ''}'' # tail"
    using rest R by (simp add: rest_advance)
  have g1: "stream_get ?inp1 = (int (of_char CHR '' ''), advance ?inp1 1)"
    using "3.prems"(1) rest1 by (simp add: stream_get_good good_advance)
  have g2: "stream_get (advance ?inp1 1) = (int (of_char r0), advance (advance ?inp1 1) 1)"
    using "3.prems"(1) rest1 by (simp add: stream_get_good good_advance rest_advance)
  let ?inp3 = "advance inp (length body + 3)"
  have inp3: "advance (advance ?inp1 1) 1 = ?inp3"
    by (simp add: advance_advance numeral_3_eq_3)
  have "operator_in_loop (int (of_char c0)) inp m =
      (case put_input m (c0 # body) of Inl e \<Rightarrow> Inl e
       | Inr m' \<Rightarrow> operator_in_loop (int (of_char r0)) (advance (advance ?inp1 1) 1) m')"
    by (rule operator_in_loop_next [OF r _ g1 g2]) simp
  then have unfold: "operator_in_loop (int (of_char c0)) inp m =
      (case put m (fst kv) (snd kv) of Inl e \<Rightarrow> Inl e
       | Inr m' \<Rightarrow> operator_in_loop (int (of_char r0)) ?inp3 m')"
    using put_input_entry [of m "fst kv" "snd kv"] e by (simp only: inp3 prod.collapse)
  have IH: "operator_in_loop (int (of_char r0)) ?inp3 m' =
      (case put_all m' (kv' # es) of Inl e \<Rightarrow> Inl e
       | Inr m'' \<Rightarrow> Inr (advance ?inp3 (length ?R), m''))" for m'
  proof -
    have "rest ?inp3 = tl ?R @ CHR ''}'' # tail"
      using rest R by (simp add: rest_advance)
    moreover have "good ?inp3" using "3.prems"(1) by (simp add: good_advance)
    ultimately show ?thesis
      using "3.IH" [of ?inp3 m'] R by simp
  qed
  have len: "length (render_entries (kv # kv' # es)) = length body + 3 + length ?R"
    using e by simp
  have hd: "hd (render_entries (kv # kv' # es)) = c0" using e by simp
  have "operator_in_loop (int (of_char c0)) inp m =
      (case put_all m (kv # kv' # es) of Inl e \<Rightarrow> Inl e
       | Inr m' \<Rightarrow> Inr (advance inp (length body + 3 + length ?R), m'))"
    using unfold
    by (cases kv) (simp add: IH advance_advance del: render_entries.simps split: sum.splits)
  then show ?case by (simp only: hd len)
qed

lemma operator_in_header:
  assumes "good inp" "rest inp = CHR ''{'' # render_entries es @ CHR ''}'' # tail"
  shows "operator_in inp m =
    (case put_all m es of
       Inl e \<Rightarrow> Inl e
     | Inr m' \<Rightarrow> Inr (advance inp (length (render_entries es) + 2), m'))"
proof (cases "es = []")
  case True
  have g1: "stream_get inp = (int (of_char CHR ''{''), advance inp 1)"
    using assms by (simp add: stream_get_good)
  have g2: "stream_get (advance inp 1) = (int (of_char CHR ''}''), advance (advance inp 1) 1)"
    using assms True by (simp add: stream_get_good good_advance rest_advance)
  have "read_input (int (of_char CHR ''}'')) [] (advance inp 2) =
      Inr (int (of_char CHR ''}''), [], advance inp 2)"
    by (rule read_input_stop) simp
  then have "operator_in_loop (int (of_char CHR ''}'')) (advance inp 2) m = Inr (advance inp 2, m)"
    by (subst operator_in_loop.simps) simp
  moreover have "operator_in inp m =
      operator_in_loop (int (of_char CHR ''}'')) (advance inp 2) m"
    by (simp only: operator_in_def g1 g2 prod.case advance_twice)
  ultimately show ?thesis using True
    by (simp add: numeral_2_eq_2)
next
  case False
  then have "render_entries es \<noteq> []"
    using entry_text_nonempty by (cases es rule: render_entries.cases) simp_all
  then obtain r0 R' where R: "render_entries es = r0 # R'" by (cases "render_entries es") auto
  have g1: "stream_get inp = (int (of_char CHR ''{''), advance inp 1)"
    using assms by (simp add: stream_get_good)
  have g2: "stream_get (advance inp 1) = (int (of_char r0), advance (advance inp 1) 1)"
    using assms R by (simp add: stream_get_good good_advance rest_advance)
  have "operator_in_loop (int (of_char (hd (render_entries es)))) (advance inp 2) m =
      (case put_all m es of Inl e \<Rightarrow> Inl e
       | Inr m' \<Rightarrow> Inr (advance (advance inp 2) (length (render_entries es)), m'))"
    using assms R False
    by (intro operator_in_loop_entries) (simp_all add: good_advance rest_advance)
  moreover have "operator_in inp m =
      operator_in_loop (int (of_char r0)) (advance inp 2) m"
    by (simp only: operator_in_def g1 g2 prod.case advance_twice)
  ultimately show ?thesis
    using R by (simp add: advance_advance add.commute split: sum.splits)
qed

definition value_of :: "hashmap \<Rightarrow> int32 \<Rightarrow> int32" where
  "value_of T k = (case lookup T k of None \<Rightarrow> 0 | Some v \<Rightarrow> v)"

lemma entry_lookup:
  assumes "hashmap_inv T" "(k, v) \<in> set (entries T)"
  shows "lookup T k = Some v"
proof -
  have len: "length (buckets T) = 10" using assms(1) by (simp add: hashmap_inv_alt)
  from assms(2) obtain b where "b \<in> set (buckets T)" "(k, v) \<in> set b"
    by (auto simp add: entries_def)
  then obtain i where i: "i < 10" "(k, v) \<in> set (buckets T ! i)"
    using len by (metis in_set_conv_nth)
  then have "k \<in> fst ` set (buckets T ! i)" by force
  then have s: "slot k = i" using in_bucket_slot [OF assms(1) i(1)] by simp
  have "distinct (map fst (buckets T ! i))"
    using assms(1) i(1) by (simp add: hashmap_inv_alt bucket_ok_def)
  then have "map_of (buckets T ! i) k = Some v" using i(2) by simp
  with s show ?thesis by (simp add: lookup_def)
qed

lemma entries_keys:
  assumes "hashmap_inv T"
  shows "entries T = map (\<lambda>k. (k, value_of T k)) (keys T)"
proof -
  have "map (\<lambda>k. (k, value_of T k)) (map fst (entries T)) = entries T"
  proof (rule map_idI [THEN trans [OF map_map]])
    fix kv assume "kv \<in> set (entries T)"
    then have "lookup T (fst kv) = Some (snd kv)"
      using entry_lookup [OF assms, of "fst kv" "snd kv"] by simp
    then show "((\<lambda>k. (k, value_of T k)) \<circ> fst) kv = kv" by (simp add: value_of_def)
  qed
  then show ?thesis by (simp add: keys_entries [OF assms])
qed

lemma operator_out_loop_inv:
  assumes "hashmap_inv T" "set ks \<subseteq> set (keys T)"
  shows "operator_out_loop T ks = Inr (render_entries (map (\<lambda>k. (k, value_of T k)) ks))"
  using assms(2)
proof (induction ks)
  case Nil
  then show ?case by simp
next
  case (Cons k ks)
  then have "k \<in> set (keys T)" by simp
  then obtain v where v: "lookup T k = Some v"
    using lookup_Some_iff [OF assms(1), of k] by auto
  then have g: "get T k = Inr v" using assms(1) by (simp add: get_present)
  from Cons have IH: "operator_out_loop T ks = Inr (render_entries (map (\<lambda>k. (k, value_of T k)) ks))"
    by simp
  show ?case
  proof (cases ks)
    case Nil
    with g v show ?thesis by (simp add: entry_text_def value_of_def)
  next
    case (Cons k' ks')
    with g v IH show ?thesis by (simp add: entry_text_def value_of_def)
  qed
qed

lemma operator_out_inv:
  assumes "hashmap_inv T"
  shows "operator_out out T = Inr (out @ ''{'' @ render_entries (entries T) @ ''}'')"
  using operator_out_loop_inv [OF assms, of "keys T"] entries_keys [OF assms]
  by (simp add: operator_out_def)

subsection \<open>Building a table again from its entries\<close>

lemma filter_concat_nth:
  assumes "\<And>j x. j < length bs \<Longrightarrow> x \<in> set (bs ! j) \<Longrightarrow> f x = j" "i < length bs"
  shows "filter (\<lambda>x. f x = i) (concat bs) = bs ! i"
  using assms
proof (induction bs rule: rev_induct)
  case Nil
  then show ?case by simp
next
  case (snoc b bs)
  have inner: "f x = j" if "j < length bs" "x \<in> set (bs ! j)" for j x
    using snoc.prems(1) [of j x] that by (simp add: nth_append)
  have last: "f x = length bs" if "x \<in> set b" for x
    using snoc.prems(1) [of "length bs" x] that by simp
  show ?case
  proof (cases "i < length bs")
    case True
    have "filter (\<lambda>x. f x = i) b = []"
      using last True by (auto simp add: filter_empty_conv)
    moreover have "filter (\<lambda>x. f x = i) (concat bs) = bs ! i"
      using snoc.IH inner True by blast
    ultimately show ?thesis using True by (simp add: nth_append)
  next
    case False
    with snoc.prems(2) have i: "i = length bs" by simp
    have "filter (\<lambda>x. f x = i) (concat bs) = []"
    proof -
      have "f x \<noteq> i" if "x \<in> set (concat bs)" for x
      proof -
        from that obtain y where "y \<in> set bs" "x \<in> set y" by auto
        then obtain j where "j < length bs" "x \<in> set (bs ! j)"
          by (metis in_set_conv_nth)
        with inner i show ?thesis by auto
      qed
      then show ?thesis by (auto simp add: filter_empty_conv)
    qed
    moreover have "filter (\<lambda>x. f x = i) b = b"
      using last i by (auto simp add: filter_id_conv)
    ultimately show ?thesis using i by simp
  qed
qed

lemma put_all_new_keys:
  assumes "hashmap_inv m" "list_all (\<lambda>kv. key_ok (fst kv)) es" "distinct (map fst es)"
    "fst ` set es \<inter> set (keys m) = {}"
  shows "put_all m es =
    Inr (m\<lparr>buckets := map (\<lambda>i. buckets m ! i @ filter (\<lambda>kv. slot (fst kv) = i) es) [0..<10],
           nElems := nElems m + of_nat (length es)\<rparr>)"
  using assms
proof (induction es arbitrary: m)
  case Nil
  have "map (\<lambda>i. buckets m ! i) [0..<10] = buckets m"
    using Nil.prems(1) by (intro nth_equalityI) (simp_all add: hashmap_inv_alt)
  then show ?case by simp
next
  case (Cons kv es)
  obtain k v where kv: "kv = (k, v)" by (cases kv)
  have ok: "key_ok k" using Cons.prems(2) kv by simp
  have new: "k \<notin> set (keys m)" using Cons.prems(4) kv by auto
  then have "lookup m k = None" using lookup_Some_iff [OF Cons.prems(1), of k] by simp
  then have absent: "k \<notin> fst ` set (buckets m ! slot k)"
    by (simp add: lookup_def map_of_eq_None_iff)
  let ?m1 = "m\<lparr>buckets := (buckets m)[slot k := buckets m ! slot k @ [(k, v)]],
              nElems := nElems m + 1\<rparr>"
  have p: "put m k v = Inr ?m1"
    using put_inv_eq [OF Cons.prems(1) ok, of v] absent by (simp add: put_chain_absent)
  have inv1: "hashmap_inv ?m1" using Cons.prems(1) ok p by (rule put_inv)
  have keys1: "set (keys ?m1) = insert k (set (keys m))"
    using keys_dom [OF inv1] keys_dom [OF Cons.prems(1)] put_lookup [OF Cons.prems(1) ok p]
    by simp
  have disj: "fst ` set es \<inter> set (keys ?m1) = {}"
    using Cons.prems(3,4) kv unfolding keys1 by auto
  have IH: "put_all ?m1 es =
      Inr (?m1\<lparr>buckets := map (\<lambda>i. buckets ?m1 ! i @ filter (\<lambda>kv. slot (fst kv) = i) es) [0..<10],
           nElems := nElems ?m1 + of_nat (length es)\<rparr>)"
    using Cons.prems(2,3) by (intro Cons.IH [OF inv1 _ _ disj]) simp_all
  have len: "length (buckets m) = 10" using Cons.prems(1) by (simp add: hashmap_inv_alt)
  have b: "map (\<lambda>i. buckets ?m1 ! i @ filter (\<lambda>kv. slot (fst kv) = i) es) [0..<10] =
      map (\<lambda>i. buckets m ! i @ filter (\<lambda>kv. slot (fst kv) = i) (kv # es)) [0..<10]"
  proof (rule map_cong [OF refl])
    fix i assume "i \<in> set [0..<10]"
    then have i: "i < 10" by simp
    show "buckets ?m1 ! i @ filter (\<lambda>kv. slot (fst kv) = i) es =
        buckets m ! i @ filter (\<lambda>kv. slot (fst kv) = i) (kv # es)"
      using i len kv by (cases "slot k = i") simp_all
  qed
  show ?case
    using p IH b kv by simp
qed

lemma put_all_entries:
  assumes "hashmap_inv T"
  shows "put_all hashmap_init (entries T) = Inr T"
proof -
  have ok: "list_all (\<lambda>kv. key_ok (fst kv)) (entries T)"
  proof -
    have "key_ok (fst kv)" if "kv \<in> set (entries T)" for kv
    proof -
      from that have "fst kv \<in> set (keys T)" by (simp add: keys_entries [OF assms])
      then show ?thesis using assms by (simp add: keys_key_ok)
    qed
    then show ?thesis by (simp add: list_all_iff)
  qed
  have d: "distinct (map fst (entries T))"
    using keys_distinct [OF assms] by (simp add: keys_entries [OF assms])
  have e: "fst ` set (entries T) \<inter> set (keys hashmap_init) = {}"
    using keys_dom [OF hashmap_inv_init] by (simp add: lookup_init)
  have len: "length (buckets T) = 10" using assms by (simp add: hashmap_inv_alt)
  have f: "filter (\<lambda>kv. slot (fst kv) = i) (entries T) = buckets T ! i" if "i < 10" for i
    unfolding entries_def
  proof (rule filter_concat_nth)
    fix j x assume "j < length (buckets T)" "x \<in> set (buckets T ! j)"
    then show "slot (fst x) = j"
      using in_bucket_slot [OF assms, of j "fst x"] len by simp
  next
    show "i < length (buckets T)" using that len by simp
  qed
  have "map (\<lambda>i. buckets hashmap_init ! i @ filter (\<lambda>kv. slot (fst kv) = i) (entries T)) [0..<10]
      = buckets T"
    using len f by (intro nth_equalityI) (simp_all add: hashmap_init_def createBucketArray_def)
  moreover have "nElems T = of_nat (length (entries T))" "nBuckets T = 10"
    using assms by (simp_all add: hashmap_inv_alt)
  ultimately show ?thesis
    using put_all_new_keys [OF hashmap_inv_init ok d e]
    by (simp add: hashmap_init_eval)
qed

lemma good_open: "good (ifbitstream_open (Some bytes))"
  by (simp add: good_def ifbitstream_open_def)

lemma rest_open: "rest (ifbitstream_open (Some bytes)) = bytes"
  by (simp add: ifbitstream_open_def)

lemma operator_in_open:
  "operator_in (ifbitstream_open (Some (''{'' @ render_entries es @ ''}'' @ tail))) m =
    (case put_all m es of
       Inl e \<Rightarrow> Inl e
     | Inr m' \<Rightarrow>
         Inr (advance (ifbitstream_open (Some (''{'' @ render_entries es @ ''}'' @ tail)))
                (length (render_entries es) + 2), m'))"
  by (rule operator_in_header) (simp_all add: good_open rest_open)

lemma rest_after_header:
  "rest (advance (ifbitstream_open (Some (''{'' @ render_entries es @ ''}'' @ tail)))
     (length (render_entries es) + 2)) = tail"
  by (simp add: rest_advance rest_open)

text \<open>
  C7. \<^verbatim>\<open>operator<<\<close> writes \<^verbatim>\<open>{\<close>, the entries \<^verbatim>\<open>key:value\<close> in the order of \<^verbatim>\<open>keys()\<close>
  separated by a comma and a space, and \<^verbatim>\<open>}\<close>. \<^verbatim>\<open>operator>>\<close> on that text, into a new
  table, gives the table back (the same pairs in the same buckets) and leaves the stream
  right behind the \<^verbatim>\<open>}\<close>. The text \<^verbatim>\<open>{}\<close> is read without error and leaves the new
  table empty.
\<close>

theorem header_round_trip:
  assumes "hashmap_inv T"
  shows "operator_out out T = Inr (out @ ''{'' @ render_entries (entries T) @ ''}'') \<and>
    map fst (entries T) = keys T \<and>
    list_all (\<lambda>kv. get T (fst kv) = Inr (snd kv)) (entries T) \<and>
    (\<exists>inp'. operator_in (ifbitstream_open (Some (''{'' @ render_entries (entries T) @ ''}'' @ tail)))
              hashmap_init = Inr (inp', T) \<and> rest inp' = tail) \<and>
    (\<exists>inp'. operator_in (ifbitstream_open (Some (''{}'' @ tail))) hashmap_init =
              Inr (inp', hashmap_init) \<and> rest inp' = tail)"
proof -
  have a: "operator_out out T = Inr (out @ ''{'' @ render_entries (entries T) @ ''}'')"
    using assms by (rule operator_out_inv)
  have b: "map fst (entries T) = keys T" using keys_entries [OF assms] by simp
  have c: "list_all (\<lambda>kv. get T (fst kv) = Inr (snd kv)) (entries T)"
  proof -
    have "get T (fst kv) = Inr (snd kv)" if "kv \<in> set (entries T)" for kv
      using entry_lookup [OF assms, of "fst kv" "snd kv"] that assms by (simp add: get_present)
    then show ?thesis by (simp add: list_all_iff)
  qed
  have d: "\<exists>inp'. operator_in
      (ifbitstream_open (Some (''{'' @ render_entries (entries T) @ ''}'' @ tail))) hashmap_init =
      Inr (inp', T) \<and> rest inp' = tail"
    using operator_in_open [of "entries T" tail hashmap_init] put_all_entries [OF assms]
      rest_after_header [of "entries T" tail]
    by simp
  have e: "\<exists>inp'. operator_in (ifbitstream_open (Some (''{}'' @ tail))) hashmap_init =
      Inr (inp', hashmap_init) \<and> rest inp' = tail"
    using operator_in_open [of "[]" tail hashmap_init] rest_after_header [of "[]" tail]
    by simp
  from a b c d e show ?thesis by (intro conjI)
qed

lemma show_int_97: "show_int 97 = ''97''" by code_simp
lemma show_int_3: "show_int 3 = ''3''" by code_simp

lemma render_table_aaa: "render_entries (entries table_aaa) = ''97:3, 256:1''"
  by (simp add: entries_def table_aaa_def entry_text_def show_int_97 show_int_3 show_int_256
      show_int_1)

theorem header_round_trip_witness:
  "hashmap_inv table_aaa \<and>
   operator_out [] table_aaa = Inr ''{97:3, 256:1}'' \<and>
   (\<exists>inp'. operator_in (ifbitstream_open (Some ''{97:3, 256:1}'')) hashmap_init =
             Inr (inp', table_aaa) \<and> rest inp' = [])"
  using header_round_trip [OF hashmap_inv_table_aaa, of "[]" "[]"]
  by (simp add: hashmap_inv_table_aaa render_table_aaa)

section \<open>Reading a header into a table that has entries\<close>

lemma put_all_lookup:
  assumes "hashmap_inv m" "list_all (\<lambda>kv. key_ok (fst kv)) es"
  shows "\<exists>m'. put_all m es = Inr m' \<and> hashmap_inv m' \<and> lookup m' = lookup m ++ map_of (rev es)"
  using assms
proof (induction es arbitrary: m)
  case Nil
  then show ?case by simp
next
  case (Cons kv es)
  obtain k v where kv: "kv = (k, v)" by (cases kv)
  have ok: "key_ok k" using Cons.prems(2) kv by simp
  obtain m1 where p: "put m k v = Inr m1" using put_ok [OF Cons.prems(1) ok] by blast
  have inv1: "hashmap_inv m1" using Cons.prems(1) ok p by (rule put_inv)
  have l1: "lookup m1 = (lookup m)(k \<mapsto> v)" using Cons.prems(1) ok p by (rule put_lookup)
  from Cons.prems(2) have "list_all (\<lambda>kv. key_ok (fst kv)) es" by simp
  from Cons.IH [OF inv1 this] obtain m' where
    m': "put_all m1 es = Inr m'" "hashmap_inv m'" "lookup m' = lookup m1 ++ map_of (rev es)"
    by blast
  have "lookup m1 ++ map_of (rev es) = lookup m ++ map_of (rev (kv # es))"
    by (simp add: l1 kv map_add_upd_left [symmetric] fun_eq_iff map_add_def split: option.splits)
  with m' p kv show ?case by simp
qed

text \<open>
  C10. \<^verbatim>\<open>operator>>\<close> into a table that already has entries only calls \<^verbatim>\<open>put\<close>: the
  keys afterwards are the old keys and the keys of the header, an old key that the header
  does not name keeps its value, and a key of the header has the value the header gives it
  (the last one, when the header names it twice).
\<close>

theorem operator_in_merges:
  assumes "hashmap_inv T" "list_all (\<lambda>kv. key_ok (fst kv)) es"
  shows "\<exists>inp' T'. operator_in (ifbitstream_open (Some (''{'' @ render_entries es @ ''}'' @ tail))) T
            = Inr (inp', T') \<and> rest inp' = tail \<and>
          set (keys T') = set (keys T) \<union> fst ` set es \<and>
          (\<forall>k \<in> set (keys T). k \<notin> fst ` set es \<longrightarrow> get T' k = get T k) \<and>
          (\<forall>k v. map_of (rev es) k = Some v \<longrightarrow> get T' k = Inr v)"
proof -
  from put_all_lookup [OF assms] obtain T' where
    T': "put_all T es = Inr T'" "hashmap_inv T'" "lookup T' = lookup T ++ map_of (rev es)"
    by blast
  let ?inp' = "advance (ifbitstream_open (Some (''{'' @ render_entries es @ ''}'' @ tail)))
                (length (render_entries es) + 2)"
  have a: "operator_in (ifbitstream_open (Some (''{'' @ render_entries es @ ''}'' @ tail))) T
      = Inr (?inp', T')"
    using operator_in_open [of es tail T] T'(1) by simp
  have b: "rest ?inp' = tail" by (rule rest_after_header)
  have "dom (map_of (rev es)) = fst ` set es" by (simp add: dom_map_of_conv_image_fst)
  then have c: "set (keys T') = set (keys T) \<union> fst ` set es"
    using keys_dom [OF T'(2)] keys_dom [OF assms(1)] T'(3) by auto
  have d: "get T' k = get T k" if "k \<in> set (keys T)" "k \<notin> fst ` set es" for k
  proof -
    from that(1) obtain v where v: "lookup T k = Some v"
      using lookup_Some_iff [OF assms(1), of k] by auto
    from that(2) have "map_of (rev es) k = None" by (simp add: map_of_eq_None_iff)
    with v have "lookup T' k = Some v" by (simp add: T'(3) map_add_def)
    with v assms(1) T'(2) show ?thesis by (simp add: get_present)
  qed
  have e: "get T' k = Inr v" if "map_of (rev es) k = Some v" for k v
  proof -
    from that have "lookup T' k = Some v" by (simp add: T'(3) map_add_def)
    with T'(2) show ?thesis by (simp add: get_present)
  qed
  show ?thesis
    using a b c d e by (intro exI [of _ ?inp'] exI [of _ T'] conjI ballI allI impI) auto
qed

lemma key_ok_1: "key_ok 1"
  by (rule small_key_ok) simp_all

theorem operator_in_merges_witness:
  "hashmap_inv table_aaa \<and> list_all (\<lambda>kv. key_ok (fst kv)) [(1, 7), (97, 4) :: key_val_pair] \<and>
   keys table_aaa = [97, 256] \<and>
   (\<exists>inp' T'. operator_in
        (ifbitstream_open (Some (''{'' @ render_entries [(1, 7), (97, 4)] @ ''}''))) table_aaa
          = Inr (inp', T') \<and>
      get T' 256 = get table_aaa 256 \<and> get T' 97 = Inr 4 \<and> get T' 1 = Inr 7)"
proof -
  have ok: "list_all (\<lambda>kv. key_ok (fst kv)) [(1, 7), (97, 4) :: key_val_pair]"
    by (simp add: key_ok_1 key_ok_97)
  from operator_in_merges [OF hashmap_inv_table_aaa ok, of "[]"]
  obtain inp' T' where r: "operator_in
        (ifbitstream_open (Some (''{'' @ render_entries [(1, 7), (97, 4)] @ ''}'' @ []))) table_aaa
          = Inr (inp', T')"
    "\<forall>k \<in> set (keys table_aaa). k \<notin> fst ` set [(1, 7), (97, 4) :: key_val_pair]
        \<longrightarrow> get T' k = get table_aaa k"
    "\<forall>k v. map_of (rev [(1, 7), (97, 4) :: key_val_pair]) k = Some v \<longrightarrow> get T' k = Inr v"
    by blast
  have "get T' 256 = get table_aaa 256" using r(2) by (simp add: keys_table_aaa)
  moreover have "get T' 97 = Inr 4" using r(3) by simp
  moreover have "get T' 1 = Inr 7" using r(3) by simp
  ultimately have "\<exists>inp' T'. operator_in
        (ifbitstream_open (Some (''{'' @ render_entries [(1, 7), (97, 4)] @ ''}''))) table_aaa
          = Inr (inp', T') \<and>
      get T' 256 = get table_aaa 256 \<and> get T' 97 = Inr 4 \<and> get T' 1 = Inr 7"
    using r(1) by auto
  with hashmap_inv_table_aaa ok keys_table_aaa show ?thesis by (intro conjI)
qed

section \<open>The bits of a byte stream\<close>

text \<open>
  \<^verbatim>\<open>readBit\<close> and \<^verbatim>\<open>writeBit\<close> number the bits of a byte from the least significant one.
\<close>

definition byte_bits :: "char \<Rightarrow> bool list" where
  "byte_bits c = map (bit (int (of_char c))) [0..<8]"

definition bytes_bits :: "string \<Rightarrow> bool list" where
  "bytes_bits cs = concat (map byte_bits cs)"

text \<open>
  A stream on which only \<^verbatim>\<open>readBit\<close> works: it is good, and either a new byte is due or
  nothing has moved the stream since the last bit was taken from \<^verbatim>\<open>curByte\<close>.
\<close>

definition reading :: "ibitstream \<Rightarrow> bool" where
  "reading inp = (\<not> eofbit inp \<and> \<not> failbit inp \<and>
     (pos inp = 8 \<or> (lastTell inp = int (gpos inp) \<and> unat (pos inp) < 8)))"

definition bits_left :: "ibitstream \<Rightarrow> bool list" where
  "bits_left inp =
     (if pos inp = 8 then [] else map (bit (curByte inp)) [unat (pos inp)..<8])
     @ bytes_bits (rest inp)"

lemma length_byte_bits: "length (byte_bits c) = 8"
  by (simp add: byte_bits_def)

lemma bytes_bits_Nil: "bytes_bits [] = []"
  by (simp add: bytes_bits_def)

lemma bytes_bits_Cons: "bytes_bits (c # cs) = byte_bits c @ bytes_bits cs"
  by (simp add: bytes_bits_def)

lemma bytes_bits_append: "bytes_bits (xs @ ys) = bytes_bits xs @ bytes_bits ys"
  by (simp add: bytes_bits_def)

lemma bytes_bits_empty: "(bytes_bits cs = []) = (cs = [])"
proof (cases cs)
  case Nil
  then show ?thesis by (simp add: bytes_bits_Nil)
next
  case (Cons c cs')
  have "length (byte_bits c) = 8" by (rule length_byte_bits)
  then have "byte_bits c \<noteq> []" by auto
  then show ?thesis using Cons by (simp add: bytes_bits_Cons)
qed

lemma byte_bits_Cons:
  "byte_bits c = bit (int (of_char c)) 0 # map (bit (int (of_char c))) [1..<8]"
  by (simp add: byte_bits_def upt_conv_Cons)

lemma GetNthBit_bit: "GetNthBit n v = (if bit v (unat n) then 1 else 0)"
  by (simp add: GetNthBit_def bit_iff_and_push_bit_not_eq_0)

lemma bits_left_due: "pos inp = 8 \<Longrightarrow> bits_left inp = bytes_bits (rest inp)"
  by (simp add: bits_left_def)

lemma readBit_exhausted:
  assumes "reading inp" "bits_left inp = []"
  shows "eofbit (snd (readBit inp))"
proof -
  have p: "pos inp = 8"
  proof (rule ccontr)
    assume n: "pos inp \<noteq> 8"
    with assms(1) have "unat (pos inp) < 8" by (simp add: reading_def)
    then have "[unat (pos inp)..<8] \<noteq> []" by simp
    with n assms(2) show False by (simp add: bits_left_def)
  qed
  with assms(2) have r: "rest inp = []" by (simp add: bits_left_def bytes_bits_empty)
  from assms(1) have g: "\<not> eofbit inp" "\<not> failbit inp" by (simp_all add: reading_def)
  show ?thesis by (simp add: readBit_def p stream_get_def g r)
qed

lemma readBit_next:
  assumes "reading inp" "bits_left inp = b # bs"
  shows "fst (readBit inp) = (if b then 1 else 0) \<and> reading (snd (readBit inp)) \<and>
    bits_left (snd (readBit inp)) = bs"
proof (cases "pos inp = 8")
  case True
  from assms(1) have g: "\<not> eofbit inp" "\<not> failbit inp" by (simp_all add: reading_def)
  from assms(2) True have "bytes_bits (rest inp) = b # bs" by (simp add: bits_left_def)
  then obtain c cs where r: "rest inp = c # cs"
    by (cases "rest inp") (simp_all add: bytes_bits_Nil)
  with \<open>bytes_bits (rest inp) = b # bs\<close>
  have e: "bit (int (of_char c)) 0 = b" "map (bit (int (of_char c))) [1..<8] @ bytes_bits cs = bs"
    by (simp_all add: bytes_bits_Cons byte_bits_Cons)
  have ne: "int (of_char c) \<noteq> - 1" by simp
  have rb: "readBit inp = (GetNthBit 0 (int (of_char c)),
      inp\<lparr>rest := cs, gpos := gpos inp + 1, curByte := int (of_char c), pos := 1,
          lastTell := int (gpos inp + 1)\<rparr>)"
    using ne by (simp add: readBit_def True stream_get_def g r tellg_def)
  show ?thesis
    using e by (simp add: rb GetNthBit_bit reading_def g bits_left_def)
next
  case False
  with assms(1) have g: "\<not> eofbit inp" "\<not> failbit inp" "lastTell inp = int (gpos inp)"
    and u: "unat (pos inp) < 8" by (simp_all add: reading_def)
  have rb: "readBit inp = (GetNthBit (pos inp) (curByte inp), inp\<lparr>pos := pos inp + 1\<rparr>)"
    by (simp add: readBit_def False g tellg_def)
  have u1: "unat (pos inp + 1) = unat (pos inp) + 1"
    using u by (simp add: unat_word_ariths)
  have eight: "(pos inp + 1 = 8) = (unat (pos inp) = 7)"
  proof
    assume "pos inp + 1 = 8"
    then have "unat (pos inp + 1) = 8" by simp
    with u1 show "unat (pos inp) = 7" by simp
  next
    assume "unat (pos inp) = 7"
    with u1 have "unat (pos inp + 1) = unat (8 :: int32)" by simp
    then show "pos inp + 1 = 8" by (simp only: word_unat_eq_iff)
  qed
  from assms(2) False
  have "map (bit (curByte inp)) [unat (pos inp)..<8] @ bytes_bits (rest inp) = b # bs"
    by (simp add: bits_left_def)
  then have e: "bit (curByte inp) (unat (pos inp)) = b"
    "map (bit (curByte inp)) [Suc (unat (pos inp))..<8] @ bytes_bits (rest inp) = bs"
    using u by (simp_all add: upt_conv_Cons)
  show ?thesis
  proof (intro conjI)
    show "fst (readBit inp) = (if b then 1 else 0)"
      using e(1) by (simp add: rb GetNthBit_bit)
    show "reading (snd (readBit inp))"
      using u u1 eight by (auto simp add: rb reading_def g)
    show "bits_left (snd (readBit inp)) = bs"
    proof (cases "unat (pos inp) = 7")
      case True
      with e(2) show ?thesis by (simp add: rb bits_left_def eight)
    next
      case False
      with e(2) show ?thesis by (simp add: rb bits_left_def eight u1)
    qed
  qed
qed

section \<open>Decoding a list of bits\<close>

text \<open>
  What the loop of \<^verbatim>\<open>decode\<close> does, on the bits that are left in the stream: the result
  is the decoded text and the text written to the output.
\<close>

fun walk :: "HuffmanNode \<Rightarrow> HuffmanNode option \<Rightarrow> bool list \<Rightarrow> string \<Rightarrow> string \<Rightarrow> error + string \<times> string" where
  "walk t None bs decoded output = Inl NullPointer"
| "walk t (Some n) [] decoded output =
     (if character n = 256 then Inr (decoded, output)
      else if character n \<noteq> 257
        then Inr (decoded @ [char_of_int (character n)], output @ [char_of_int (character n)])
        else Inr (decoded, output))"
| "walk t (Some n) (b # bs) decoded output =
     (if character n = 256 then Inr (decoded, output)
      else if character n \<noteq> 257
        then walk t (if b then one t else zero t) bs
               (decoded @ [char_of_int (character n)]) (output @ [char_of_int (character n)])
        else walk t (if b then one n else zero n) bs decoded output)"

lemma decode_loop_eof:
  "eofbit inp \<Longrightarrow> decode_loop t inp node decoded os = Some (Inr (decoded, inp, os))"
  by (subst decode_loop.simps) (simp add: eof_def)

lemma decode_loop_walk:
  assumes "reading inp"
  shows "\<exists>inp'. decode_loop t inp node decoded os =
    Some (case walk t node (bits_left inp) decoded os of
            Inl e \<Rightarrow> Inl e
          | Inr r \<Rightarrow> Inr (fst r, inp', snd r))"
  using assms
proof (induction "bits_left inp" arbitrary: inp node decoded os)
  case Nil
  then have g: "\<not> eofbit inp" by (simp add: reading_def)
  from Nil have x: "eofbit (snd (readBit inp))" by (simp add: readBit_exhausted)
  show ?case
  proof (cases node)
    case None
    then show ?thesis
      by (subst decode_loop.simps) (simp add: eof_def g)
  next
    case (Some n)
    show ?thesis
      using Nil(1) [symmetric]
      by (subst decode_loop.simps) (auto simp add: eof_def g Some decode_loop_eof [OF x])
  qed
next
  case (Cons b bs)
  then have g: "\<not> eofbit inp" by (simp add: reading_def)
  from Cons(2) [symmetric] Cons(3)
  have nx: "fst (readBit inp) = (if b then 1 else 0)" "reading (snd (readBit inp))"
    "bs = bits_left (snd (readBit inp))"
    using readBit_next [of inp b bs] by simp_all
  note ih = Cons(1) [OF nx(3) nx(2)]
  show ?case
  proof (cases node)
    case None
    then show ?thesis
      by (subst decode_loop.simps) (simp add: eof_def g)
  next
    case (Some n)
    show ?thesis
    proof (cases "character n = 256")
      case True
      then show ?thesis
        using Cons(2) [symmetric]
        by (subst decode_loop.simps) (simp add: eof_def g Some)
    next
      case False
      show ?thesis
      proof (cases "character n = 257")
        case True
        from ih [of "if b then one n else zero n" decoded os]
        show ?thesis
          using Cons(2) [symmetric] nx(1) nx(3) [symmetric]
          by (subst decode_loop.simps) (auto simp add: eof_def g Some True)
      next
        case n257: False
        from ih [of "if b then one t else zero t" "decoded @ [char_of_int (character n)]"
                    "os @ [char_of_int (character n)]"]
        show ?thesis
          using Cons(2) [symmetric] nx(1) nx(3) [symmetric]
          by (subst decode_loop.simps) (auto simp add: eof_def g Some False n257)
      qed
    qed
  qed
qed

section \<open>Decoding codewords\<close>

text \<open>The bits that \<^verbatim>\<open>encode\<close> writes for a string of \<^verbatim>\<open>'0'\<close> and \<^verbatim>\<open>'1'\<close>.\<close>

definition bits_of :: "string \<Rightarrow> bool list" where
  "bits_of str = map (\<lambda>c. c \<noteq> CHR ''0'') str"

lemma bits_of_Nil: "bits_of [] = []"
  by (simp add: bits_of_def)

lemma bits_of_append: "bits_of (xs @ ys) = bits_of xs @ bits_of ys"
  by (simp add: bits_of_def)

lemma bits_of_0: "bits_of (CHR ''0'' # str) = False # bits_of str"
  by (simp add: bits_of_def)

lemma bits_of_1: "bits_of (CHR ''1'' # str) = True # bits_of str"
  by (simp add: bits_of_def)

lemma walk_root:
  "character t = 257 \<Longrightarrow> walk t (Some t) (b # bs) d os = walk t (if b then one t else zero t) bs d os"
  by simp

text \<open>
  Following the codeword of a symbol from the node where it starts: at the end-of-file
  symbol the loop returns, at any other symbol the character is written and the walk goes
  on from the root.
\<close>

lemma walk_code:
  assumes "well_formed n" "(c, s) \<in> set (codes n str)" "character t = 257"
  shows "\<exists>p. s = str @ p \<and>
    (\<forall>bs d os. walk t (Some n) (bits_of p @ bs) d os =
       (if c = 256 then Inr (d, os)
        else walk t (Some t) bs (d @ [char_of_int c]) (os @ [char_of_int c])))"
  using assms(1,2)
proof (induction n str arbitrary: s rule: codes.induct)
  case (1 c' cnt z w str)
  show ?case
  proof (cases z)
    case None
    with "1.prems" have w: "w = None" and c: "c = c'" "s = str" "c' \<noteq> 257"
      by (auto split: option.splits if_splits)
    have "walk t (Some (HuffmanNode c' cnt z w)) bs d os =
       (if c = 256 then Inr (d, os)
        else walk t (Some t) bs (d @ [char_of_int c]) (os @ [char_of_int c]))" for bs d os
      using c assms(3) by (cases bs) simp_all
    then show ?thesis using c by (intro exI [of _ "[]"]) (simp add: bits_of_Nil)
  next
    case (Some x)
    with "1.prems"(1) obtain y where w: "w = Some y" and c': "c' = 257"
      and wf: "well_formed x" "well_formed y"
      by (auto split: option.splits)
    from "1.prems"(2) Some w c'
    consider (l) "(c, s) \<in> set (codes x (str @ ''0''))"
      | (r) "(c, s) \<in> set (codes y (str @ ''1''))"
      by auto
    then show ?thesis
    proof cases
      case l
      from "1.IH"(1) [OF Some wf(1) l] obtain p where p: "s = (str @ ''0'') @ p"
        "\<And>bs d os. walk t (Some x) (bits_of p @ bs) d os =
           (if c = 256 then Inr (d, os)
            else walk t (Some t) bs (d @ [char_of_int c]) (os @ [char_of_int c]))"
        by blast
      show ?thesis
        using p Some c' by (intro exI [of _ "CHR ''0'' # p"]) (simp add: bits_of_0)
    next
      case r
      from "1.IH"(2) [OF w wf(2) r] obtain p where p: "s = (str @ ''1'') @ p"
        "\<And>bs d os. walk t (Some y) (bits_of p @ bs) d os =
           (if c = 256 then Inr (d, os)
            else walk t (Some t) bs (d @ [char_of_int c]) (os @ [char_of_int c]))"
        by blast
      show ?thesis
        using p w c' by (intro exI [of _ "CHR ''1'' # p"]) (simp add: bits_of_1)
    qed
  qed
qed

lemma walk_symbol:
  assumes "well_formed t" "(c, s) \<in> set (codes t [])" "character t = 257" "c \<noteq> 256"
  shows "walk t (Some t) (bits_of s @ bs) d os =
    walk t (Some t) bs (d @ [char_of_int c]) (os @ [char_of_int c])"
  using walk_code [OF assms(1,2,3)] assms(4) by auto

lemma walk_eos:
  assumes "well_formed t" "(256, s) \<in> set (codes t [])" "character t = 257"
  shows "walk t (Some t) (bits_of s @ bs) d os = Inr (d, os)"
  using walk_code [OF assms(1,2,3)] by auto

text \<open>The codeword that \<^verbatim>\<open>encodingMap[k]\<close> gives.\<close>

definition codeword :: "HuffmanNode \<Rightarrow> int32 \<Rightarrow> string" where
  "codeword t k = fst (index_E (buildEncodingMap t) k)"

lemma codeword_Some: "buildEncodingMap t k = Some s \<Longrightarrow> codeword t k = s"
  by (simp add: codeword_def index_E_def)

lemma walk_symbols:
  assumes "well_formed t" "character t = 257"
    and "list_all (\<lambda>k. k \<noteq> 256 \<and> buildEncodingMap t k \<noteq> None) ks"
  shows "walk t (Some t) (concat (map (\<lambda>k. bits_of (codeword t k)) ks) @ bs) d os =
    walk t (Some t) bs (d @ map char_of_int ks) (os @ map char_of_int ks)"
  using assms(3)
proof (induction ks arbitrary: d os)
  case Nil
  show ?case by simp
next
  case (Cons k ks)
  then obtain s where s: "buildEncodingMap t k = Some s" and k: "k \<noteq> 256"
    and rest: "list_all (\<lambda>k. k \<noteq> 256 \<and> buildEncodingMap t k \<noteq> None) ks"
    by auto
  from s have "(k, s) \<in> set (codes t [])" by (rule buildEncodingMap_Some)
  from walk_symbol [OF assms(1) this assms(2) k]
  show ?case by (simp add: codeword_Some [OF s] Cons.IH [OF rest])
qed

text \<open>Bits that end inside a codeword leave the walk at an inner node.\<close>

lemma walk_inside:
  assumes "well_formed n" "(c, str @ r @ s) \<in> set (codes n str)" "s \<noteq> []"
  shows "walk t (Some n) (bits_of r) d os = Inr (d, os)"
  using assms(1,2)
proof (induction n str arbitrary: r rule: codes.induct)
  case (1 c' cnt z w str)
  show ?case
  proof (cases z)
    case None
    with "1.prems" assms(3) show ?thesis
      by (auto split: option.splits if_splits)
  next
    case (Some x)
    with "1.prems"(1) obtain y where w: "w = Some y" and c': "c' = 257"
      and wf: "well_formed x" "well_formed y"
      by (auto split: option.splits)
    show ?thesis
    proof (cases r)
      case Nil
      then show ?thesis by (simp add: c' bits_of_Nil)
    next
      case (Cons a r')
      from "1.prems"(2) Some w c'
      consider (l) "(c, str @ r @ s) \<in> set (codes x (str @ ''0''))"
        | (r) "(c, str @ r @ s) \<in> set (codes y (str @ ''1''))"
        by auto
      then show ?thesis
      proof cases
        case l
        from codes_extend [OF l] Cons have a: "a = CHR ''0''" by simp
        with l Cons have "(c, (str @ ''0'') @ r' @ s) \<in> set (codes x (str @ ''0''))" by simp
        from "1.IH"(1) [OF Some wf(1) this] show ?thesis
          by (simp add: Cons a bits_of_0 c' Some)
      next
        case r
        from codes_extend [OF r] Cons have a: "a = CHR ''1''" by simp
        with r Cons have "(c, (str @ ''1'') @ r' @ s) \<in> set (codes y (str @ ''1''))" by simp
        from "1.IH"(2) [OF w wf(2) this] show ?thesis
          by (simp add: Cons a bits_of_1 c' w)
      qed
    qed
  qed
qed

lemma walk_same:
  "walk t node bs d d = Inr r \<Longrightarrow> fst r = snd r"
proof (induction t node bs d d arbitrary: r rule: walk.induct)
  case (1 t bs decoded)
  then show ?case by simp
next
  case (2 t n decoded)
  then show ?case by (auto split: if_splits)
next
  case (3 t n b bs decoded)
  then show ?case by (auto split: if_splits)
qed

section \<open>Decompressing a container\<close>

text \<open>The name of the file that \<^verbatim>\<open>decompress\<close> writes.\<close>

definition unc_name :: "string \<Rightarrow> string" where
  "unc_name filename =
     take (if 8 \<le> length filename then length filename - 8 else length filename) filename
     @ ''_unc.txt''"

lemma reading_after_header:
  "reading (advance (ifbitstream_open (Some bytes)) n)"
  by (simp add: reading_def advance_def ifbitstream_open_def)

lemma bits_left_after_header:
  "bits_left (advance (ifbitstream_open (Some (''{'' @ render_entries es @ ''}'' @ tail)))
     (length (render_entries es) + 2)) = bytes_bits tail"
proof -
  have "pos (advance (ifbitstream_open (Some (''{'' @ render_entries es @ ''}'' @ tail)))
     (length (render_entries es) + 2)) = 8"
    by (simp add: advance_def ifbitstream_open_def)
  then show ?thesis
    by (simp only: bits_left_due rest_after_header)
qed

lemma decompress_container:
  assumes "hashmap_inv T"
    and "fs filename = Some (''{'' @ render_entries (entries T) @ ''}'' @ payload)"
    and "unc_name filename \<noteq> filename"
    and "buildEncodingTree tie T = Inr t"
  shows "decompress tie fs filename =
    Some (case walk t (Some t) (bytes_bits payload) [] [] of
            Inl e \<Rightarrow> Inl e
          | Inr r \<Rightarrow> Inr (fst r, fs(unc_name filename \<mapsto> snd r)))"
proof -
  let ?bytes = "''{'' @ render_entries (entries T) @ ''}'' @ payload"
  let ?bs1 = "advance (ifbitstream_open (Some ?bytes)) (length (render_entries (entries T)) + 2)"
  have opened: "(if fs filename = None then None else (fs(unc_name filename \<mapsto> [])) filename)
      = Some ?bytes"
    using assms(2,3) by simp
  have header: "operator_in (ifbitstream_open (Some ?bytes)) hashmap_init = Inr (?bs1, T)"
    by (simp only: operator_in_open put_all_entries [OF assms(1)] sum.case)
  obtain inp' where dl: "decode_loop t ?bs1 (Some t) [] [] =
      Some (case walk t (Some t) (bits_left ?bs1) [] [] of
              Inl e \<Rightarrow> Inl e
            | Inr r \<Rightarrow> Inr (fst r, inp', snd r))"
    using decode_loop_walk [OF reading_after_header] by blast
  have dec: "decode ?bs1 t [] =
      Some (case walk t (Some t) (bytes_bits payload) [] [] of
              Inl e \<Rightarrow> Inl e
            | Inr r \<Rightarrow> Inr (fst r, inp', snd r))"
    unfolding decode_def dl by (simp only: bits_left_after_header)
  have "decompress tie fs filename =
      (case decode ?bs1 t [] of
         None \<Rightarrow> None
       | Some (Inl e) \<Rightarrow> Some (Inl e)
       | Some (Inr (decoded, bs2, os)) \<Rightarrow> Some (Inr (decoded, fs(unc_name filename \<mapsto> os))))"
    unfolding decompress_def Let_def unc_name_def [symmetric] opened header
    by (simp add: assms(4) split: option.splits sum.splits)
  then show ?thesis
    unfolding dec by (simp split: sum.splits)
qed

text \<open>
  C2 (as the code has it). A container with a well-formed header whose payload runs out
  before the codeword of the end-of-file symbol has been decoded: the bits of the payload
  are the codewords of symbols \<open>ks\<close> other than 256, followed by the beginning \<open>r\<close> of a
  codeword (possibly no bit at all). The loop of \<^verbatim>\<open>decode\<close> ends when \<^verbatim>\<open>readBit\<close> finds no
  byte, and \<^verbatim>\<open>decompress\<close> returns the characters decoded so far as its result and
  writes them to the output file; no failure is raised.
\<close>

theorem decompress_truncated_payload:
  assumes "hashmap_inv T"
    and "fs filename = Some (''{'' @ render_entries (entries T) @ ''}'' @ payload)"
    and "unc_name filename \<noteq> filename"
    and "buildEncodingTree tie T = Inr t"
    and "list_all (\<lambda>k. k \<noteq> 256 \<and> buildEncodingMap t k \<noteq> None) ks"
    and "buildEncodingMap t k = Some (r @ s)" and "s \<noteq> []"
    and "bytes_bits payload = concat (map (\<lambda>k. bits_of (codeword t k)) ks) @ bits_of r"
  shows "decompress tie fs filename =
    Some (Inr (map char_of_int ks, fs(unc_name filename \<mapsto> map char_of_int ks)))"
proof -
  from assms(4) have wf: "well_formed t" by (rule buildEncodingTree_well_formed)
  from assms(6) have code: "(k, [] @ r @ s) \<in> set (codes t [])"
    using buildEncodingMap_Some by simp
  have root: "character t = 257"
  proof (cases t)
    case (HuffmanNode c n z w)
    show ?thesis
    proof (cases z)
      case None
      with wf HuffmanNode code assms(7) show ?thesis
        by (auto split: option.splits if_splits)
    next
      case (Some x)
      with wf HuffmanNode show ?thesis by (auto split: option.splits)
    qed
  qed
  have "walk t (Some t) (bytes_bits payload) [] [] =
      walk t (Some t) (bits_of r) ([] @ map char_of_int ks) ([] @ map char_of_int ks)"
    unfolding assms(8) by (rule walk_symbols [OF wf root assms(5)])
  also have "\<dots> = Inr ([] @ map char_of_int ks, [] @ map char_of_int ks)"
    by (rule walk_inside [OF wf code assms(7)])
  finally have "walk t (Some t) (bytes_bits payload) [] [] =
      Inr (map char_of_int ks, map char_of_int ks)" by simp
  then show ?thesis
    by (simp add: decompress_container [where fs = fs and filename = filename, OF assms(1-4)])
qed

lemma byte_bits_0xFF: "byte_bits (CHR 0xFF) = [True, True, True, True, True, True, True, True]"
  by (simp add: byte_bits_def upt_conv_Cons)

lemma char_of_int_97: "char_of_int 97 = CHR ''a''"
  by (simp add: char_of_int_def char_of_def bit_0)

lemma unc_name_example: "unc_name ''a.txt.huf'' = ''a_unc.txt''"
  by (simp add: unc_name_def)

lemma codeword_aaa:
  "codeword (HuffmanNode 257 4 (Some (HuffmanNode 256 1 None None))
     (Some (HuffmanNode 97 3 None None))) 97 = ''1''"
  by (simp add: codeword_def buildEncodingMap_aaa index_E_def)

text \<open>
  C2, the claim as it is written fails: the table of \<^verbatim>\<open>aaa\<close> gives the codewords
  \<^verbatim>\<open>0\<close> for 256 and \<^verbatim>\<open>1\<close> for \<^verbatim>\<open>a\<close>; on a payload of one byte \<^verbatim>\<open>0xFF\<close>, which never
  holds the codeword of 256, \<^verbatim>\<open>decompress\<close> returns eight \<^verbatim>\<open>a\<close> as its result.
\<close>

theorem decompress_truncated_payload_counterexample:
  "decompress first_candidate [''a.txt.huf'' \<mapsto> ''{97:3, 256:1}'' @ [CHR 0xFF]] ''a.txt.huf'' =
     Some (Inr (''aaaaaaaa'',
       [''a.txt.huf'' \<mapsto> ''{97:3, 256:1}'' @ [CHR 0xFF], ''a_unc.txt'' \<mapsto> ''aaaaaaaa''])) \<and>
   buildEncodingMap
     (HuffmanNode 257 4 (Some (HuffmanNode 256 1 None None)) (Some (HuffmanNode 97 3 None None)))
     256 = Some ''0'' \<and>
   bytes_bits [CHR 0xFF] = [True, True, True, True, True, True, True, True]"
proof -
  have fs: "[''a.txt.huf'' \<mapsto> ''{97:3, 256:1}'' @ [CHR 0xFF]] ''a.txt.huf'' =
      Some (''{'' @ render_entries (entries table_aaa) @ ''}'' @ [CHR 0xFF])"
    by (simp add: render_table_aaa)
  have nm: "unc_name ''a.txt.huf'' \<noteq> ''a.txt.huf''"
    by (simp add: unc_name_example)
  have w: "walk (HuffmanNode 257 4 (Some (HuffmanNode 256 1 None None))
       (Some (HuffmanNode 97 3 None None)))
      (Some (HuffmanNode 257 4 (Some (HuffmanNode 256 1 None None))
       (Some (HuffmanNode 97 3 None None)))) (bytes_bits [CHR 0xFF]) [] [] =
      Inr (''aaaaaaaa'', ''aaaaaaaa'')"
    by (simp add: bytes_bits_def byte_bits_0xFF char_of_int_97)
  show ?thesis
    using decompress_container [where fs = "[''a.txt.huf'' \<mapsto> ''{97:3, 256:1}'' @ [CHR 0xFF]]"
        and filename = "''a.txt.huf''", OF hashmap_inv_table_aaa fs nm buildEncodingTree_table_aaa]
    by (simp add: w unc_name_example buildEncodingMap_aaa bytes_bits_def byte_bits_0xFF
        char_of_int_97)
qed

theorem decompress_truncated_payload_witness:
  "hashmap_inv table_aaa \<and>
   buildEncodingTree first_candidate table_aaa =
     Inr (HuffmanNode 257 4 (Some (HuffmanNode 256 1 None None)) (Some (HuffmanNode 97 3 None None))) \<and>
   buildEncodingMap
     (HuffmanNode 257 4 (Some (HuffmanNode 256 1 None None)) (Some (HuffmanNode 97 3 None None)))
     97 = Some ''1'' \<and>
   bytes_bits [CHR 0xFF, CHR 0xFF] = concat (replicate 16 (bits_of ''1'')) \<and>
   decompress first_candidate [''b.txt.huf'' \<mapsto> ''{97:3, 256:1}'' @ [CHR 0xFF, CHR 0xFF]]
       ''b.txt.huf'' =
     Some (Inr (''aaaaaaaaaaaaaaaa'',
       [''b.txt.huf'' \<mapsto> ''{97:3, 256:1}'' @ [CHR 0xFF, CHR 0xFF],
        ''b_unc.txt'' \<mapsto> ''aaaaaaaaaaaaaaaa'']))"
proof -
  let ?t = "HuffmanNode 257 4 (Some (HuffmanNode 256 1 None None)) (Some (HuffmanNode 97 3 None None))"
  let ?fs = "[''b.txt.huf'' \<mapsto> ''{97:3, 256:1}'' @ [CHR 0xFF, CHR 0xFF]]"
  have fs: "?fs ''b.txt.huf'' =
      Some (''{'' @ render_entries (entries table_aaa) @ ''}'' @ [CHR 0xFF, CHR 0xFF])"
    by (simp add: render_table_aaa)
  have un: "unc_name ''b.txt.huf'' = ''b_unc.txt''"
    by (simp add: unc_name_def)
  have nm: "unc_name ''b.txt.huf'' \<noteq> ''b.txt.huf''"
    by (simp add: un)
  have ks: "list_all (\<lambda>k. k \<noteq> 256 \<and> buildEncodingMap ?t k \<noteq> None) (replicate 16 97)"
    by (simp add: buildEncodingMap_aaa list_all_iff)
  have k: "buildEncodingMap ?t 97 = Some ([] @ ''1'')"
    by (simp add: buildEncodingMap_aaa)
  have bits: "bytes_bits [CHR 0xFF, CHR 0xFF] =
      concat (map (\<lambda>k. bits_of (codeword ?t k)) (replicate 16 97)) @ bits_of []"
    by (simp add: bytes_bits_def byte_bits_0xFF codeword_aaa bits_of_def
        numeral_eq_Suc del: replicate_Suc replicate.simps) (simp add: numeral_eq_Suc)
  have b2: "bytes_bits [CHR 0xFF, CHR 0xFF] = concat (replicate 16 (bits_of ''1''))"
    by (simp add: bytes_bits_def byte_bits_0xFF bits_of_def numeral_eq_Suc)
  have m: "map char_of_int (replicate 16 97) = ''aaaaaaaaaaaaaaaa''"
    by (simp add: char_of_int_97 numeral_eq_Suc)
  from decompress_truncated_payload [where fs = ?fs and filename = "''b.txt.huf''",
      OF hashmap_inv_table_aaa fs nm buildEncodingTree_table_aaa ks k _ bits]
  have "decompress first_candidate ?fs ''b.txt.huf'' =
      Some (Inr (map char_of_int (replicate 16 97),
        ?fs(unc_name ''b.txt.huf'' \<mapsto> map char_of_int (replicate 16 97))))"
    by simp
  then show ?thesis
    by (simp only: m un hashmap_inv_table_aaa buildEncodingTree_table_aaa b2 k
        append_Nil simp_thms)
qed

section \<open>Writing bits\<close>

lemma byte_bits_char_of: "byte_bits (char_of (v :: int)) = map (bit v) [0..<8]"
proof -
  have "int (of_char (char_of v)) = of_char (char_of v)"
    by (rule of_nat_of_char)
  then have "int (of_char (char_of v)) = take_bit 8 v"
    by (simp add: take_bit_eq_mod)
  then show ?thesis
    by (simp add: byte_bits_def bit_take_bit_iff)
qed

text \<open>
  The state of an output stream after the bits \<open>bs\<close> have been written behind the text
  \<open>h\<close>: the bytes \<open>cs\<close> are complete, and \<^verbatim>\<open>curByte\<close>, the last byte of the file, holds the
  bits \<open>part\<close> of the byte under construction.
\<close>

definition packed :: "obitstream \<Rightarrow> string \<Rightarrow> string \<Rightarrow> bool list \<Rightarrow> bool" where
  "packed out h cs part =
     (written out = h @ cs @ [char_of (curByte_out out)] \<and>
      part \<noteq> [] \<and> length part \<le> 8 \<and> pos_out out = of_nat (length part) \<and>
      map (bit (curByte_out out)) [0..<8] = part @ replicate (8 - length part) False \<and>
      lastTell_out out = tellp out)"

lemma unat_small: "k \<le> 8 \<Longrightarrow> unat (of_nat k :: int32) = k"
  by (simp add: unat_of_nat)

lemma of_nat_eq_8: "k \<le> 8 \<Longrightarrow> ((of_nat k :: int32) = 8) = (k = 8)"
proof -
  assume k: "k \<le> 8"
  have "((of_nat k :: int32) = 8) = (unat (of_nat k :: int32) = unat (8 :: int32))"
    by (simp only: word_unat_eq_iff)
  then show ?thesis using k by (simp add: unat_of_nat)
qed

lemma of_nat_eq_0: "k \<le> 8 \<Longrightarrow> ((of_nat k :: int32) = 0) = (k = 0)"
proof -
  assume k: "k \<le> 8"
  have "((of_nat k :: int32) = 0) = (unat (of_nat k :: int32) = unat (0 :: int32))"
    by (simp only: word_unat_eq_iff)
  then show ?thesis using k by (simp add: unat_of_nat)
qed

lemma bits_first: "map (bit (if b \<noteq> 0 then SetNthBit 0 0 else (0 :: int))) [0..<8] =
    [b \<noteq> (0 :: int)] @ replicate 7 False"
proof -
  have "replicate 7 False = [False, False, False, False, False, False, False]"
    by (simp add: numeral_eq_Suc)
  then show ?thesis
    by (simp add: SetNthBit_def upt_conv_Cons bit_0 bit_Suc)
qed

lemma writeBit_new_byte:
  assumes "pos_out out = 8"
  shows "packed (writeBit out b) (written out) [] [b \<noteq> 0]"
proof -
  have "writeBit out b =
      out\<lparr>curByte_out := (if b \<noteq> 0 then SetNthBit 0 0 else 0),
          written := written out @ [char_of (if b \<noteq> 0 then SetNthBit 0 0 else (0 :: int))],
          pos_out := 1,
          lastTell_out := int (length (written out)) + 1\<rparr>"
    by (simp add: writeBit_def Let_def assms tellp_def)
  then show ?thesis
    using bits_first [of b] by (simp add: packed_def tellp_def)
qed

lemma set_bit_list:
  assumes "k < 8" "length part = k"
    and "map (bit (v :: int)) [0..<8] = part @ replicate (8 - k) False"
  shows "map (bit (SetNthBit (of_nat k) v)) [0..<8] = (part @ [True]) @ replicate (8 - Suc k) False"
proof -
  have u: "unat (of_nat k :: int32) = k" using assms(1) by (simp add: unat_of_nat)
  have "map (bit (SetNthBit (of_nat k) v)) [0..<8] = (map (bit v) [0..<8])[k := True]"
    using assms(1)
    by (intro nth_equalityI)
       (auto simp add: SetNthBit_def u bit_or_iff bit_push_bit_iff nth_list_update bit_1_iff
          bit_exp_iff)
  also have "\<dots> = (part @ replicate (8 - k) False)[k := True]"
    by (simp only: assms(3))
  also have "\<dots> = part @ (replicate (8 - k) False)[0 := True]"
    using assms(2) by (simp add: list_update_append)
  also have "replicate (8 - k) False = False # replicate (8 - Suc k) False"
    using assms(1) by (cases "8 - k") (simp_all add: Suc_diff_Suc)
  finally show ?thesis by simp
qed

lemma writeBit_same_byte:
  assumes "packed out h cs part" "length part < 8"
  shows "packed (writeBit out b) h cs (part @ [b \<noteq> 0])"
proof -
  let ?k = "length part"
  from assms(1) have w: "written out = h @ cs @ [char_of (curByte_out out)]"
    and k: "part \<noteq> []" and p: "pos_out out = of_nat ?k"
    and bits: "map (bit (curByte_out out)) [0..<8] = part @ replicate (8 - ?k) False"
    and lt: "lastTell_out out = tellp out"
    by (simp_all add: packed_def)
  from k have k0: "?k \<noteq> 0" by simp
  from assms(2) have n8: "(of_nat ?k :: int32) \<noteq> 8" by (simp add: of_nat_eq_8)
  from assms(2) k0 have n0: "(of_nat ?k :: int32) \<noteq> 0" by (simp add: of_nat_eq_0)
  show ?thesis
  proof (cases "b = 0")
    case True
    have wb: "writeBit out b = out\<lparr>pos_out := of_nat (Suc ?k), lastTell_out := tellp out\<rparr>"
      by (simp add: writeBit_def Let_def lt n8 n0 True p tellp_def)
    have "replicate (8 - ?k) False = False # replicate (8 - Suc ?k) False"
      using assms(2) by (cases "8 - ?k") (simp_all add: Suc_diff_Suc)
    with bits have "map (bit (curByte_out out)) [0..<8] =
        (part @ [False]) @ replicate (8 - Suc ?k) False" by simp
    then show ?thesis
      using assms(2) w k unfolding wb by (simp add: packed_def tellp_def True)
  next
    case False
    have wb: "writeBit out b =
        out\<lparr>curByte_out := SetNthBit (of_nat ?k) (curByte_out out),
            written := h @ cs @ [char_of (SetNthBit (of_nat ?k) (curByte_out out))],
            pos_out := of_nat (Suc ?k),
            lastTell_out := int (length (h @ cs)) + 1\<rparr>"
      by (simp add: writeBit_def Let_def lt n8 n0 False p tellp_def w butlast_append)
    from set_bit_list [OF assms(2) refl bits]
    show ?thesis
      using assms(2) k unfolding wb by (simp add: packed_def tellp_def False)
  qed
qed

lemma writeBit_next_byte:
  assumes "packed out h cs part" "length part = 8"
  shows "packed (writeBit out b) h (cs @ [char_of (curByte_out out)]) [b \<noteq> 0]"
proof -
  from assms have "pos_out out = 8" and w: "written out = h @ cs @ [char_of (curByte_out out)]"
    by (simp_all add: packed_def)
  from writeBit_new_byte [OF this(1), of b] show ?thesis
    by (simp add: packed_def w)
qed

lemma packed_bits:
  assumes "packed out h cs part"
  shows "\<exists>payload. written out = h @ payload \<and>
    bytes_bits payload = (bytes_bits cs @ part) @ replicate (8 - length part) False"
proof -
  from assms have w: "written out = h @ cs @ [char_of (curByte_out out)]"
    and bits: "map (bit (curByte_out out)) [0..<8] = part @ replicate (8 - length part) False"
    by (simp_all add: packed_def)
  have "bytes_bits (cs @ [char_of (curByte_out out)]) =
      (bytes_bits cs @ part) @ replicate (8 - length part) False"
    by (simp add: bytes_bits_append bytes_bits_Cons bytes_bits_Nil byte_bits_char_of bits)
  with w show ?thesis by blast
qed

lemma packed_full:
  assumes "packed out h cs part" "length part = 8"
  shows "bytes_bits (cs @ [char_of (curByte_out out)]) = bytes_bits cs @ part"
proof -
  from assms have
    bits: "map (bit (curByte_out out)) [0..<8] = part @ replicate (8 - length part) False"
    by (simp_all add: packed_def)
  show ?thesis
    using assms(2)
    by (simp add: bytes_bits_append bytes_bits_Cons bytes_bits_Nil byte_bits_char_of bits)
qed

text \<open>Writing a string of \<^verbatim>\<open>'0'\<close> and \<^verbatim>\<open>'1'\<close> to a stream that already holds bits.\<close>

lemma write_bits_packed:
  assumes "packed out h cs part"
  shows "\<exists>cs' part'. packed (write_bits out str) h cs' part' \<and>
    bytes_bits cs' @ part' = (bytes_bits cs @ part) @ bits_of str"
  using assms
proof (induction str arbitrary: out cs part)
  case Nil
  then show ?case by (auto simp add: write_bits_def bits_of_Nil)
next
  case (Cons c str)
  let ?b = "if c = CHR ''0'' then 0 else (1 :: int)"
  have step: "write_bits out (c # str) = write_bits (writeBit out ?b) str"
    by (simp add: write_bits_def)
  have b: "(?b \<noteq> 0) = (c \<noteq> CHR ''0'')" by simp
  from Cons.prems have le: "length part \<le> 8" by (simp add: packed_def)
  show ?case
  proof (cases "length part = 8")
    case True
    from writeBit_next_byte [OF Cons.prems True, of ?b]
    have "packed (writeBit out ?b) h (cs @ [char_of (curByte_out out)]) [c \<noteq> CHR ''0'']"
      by (simp only: b)
    from Cons.IH [OF this] obtain cs' part' where
      r: "packed (write_bits (writeBit out ?b) str) h cs' part'"
      "bytes_bits cs' @ part' =
         (bytes_bits (cs @ [char_of (curByte_out out)]) @ [c \<noteq> CHR ''0'']) @ bits_of str"
      by blast
    from r(2) have "bytes_bits cs' @ part' = (bytes_bits cs @ part) @ bits_of (c # str)"
      by (simp add: packed_full [OF Cons.prems True] bits_of_def)
    with r(1) show ?thesis unfolding step by blast
  next
    case False
    with le have "length part < 8" by simp
    from writeBit_same_byte [OF Cons.prems this, of ?b]
    have "packed (writeBit out ?b) h cs (part @ [c \<noteq> CHR ''0''])"
      by (simp only: b)
    from Cons.IH [OF this] obtain cs' part' where
      r: "packed (write_bits (writeBit out ?b) str) h cs' part'"
      "bytes_bits cs' @ part' = (bytes_bits cs @ part @ [c \<noteq> CHR ''0'']) @ bits_of str"
      by blast
    from r(2) have "bytes_bits cs' @ part' = (bytes_bits cs @ part) @ bits_of (c # str)"
      by (simp add: bits_of_def)
    with r(1) show ?thesis unfolding step by blast
  qed
qed

text \<open>
  The bits of a compressed file: behind the header, the bits that were written, and zeros
  up to the end of the last byte.
\<close>

lemma write_bits_payload:
  assumes "pos_out out = 8"
  shows "\<exists>payload pad. written (write_bits out str) = written out @ payload \<and>
    bytes_bits payload = bits_of str @ replicate pad False"
proof (cases str)
  case Nil
  then show ?thesis
    by (simp add: write_bits_def bytes_bits_Nil bits_of_Nil exI [of _ 0])
next
  case (Cons c str')
  let ?b = "if c = CHR ''0'' then 0 else (1 :: int)"
  have step: "write_bits out (c # str') = write_bits (writeBit out ?b) str'"
    by (simp add: write_bits_def)
  have b: "(?b \<noteq> 0) = (c \<noteq> CHR ''0'')" by simp
  have "packed (writeBit out ?b) (written out) [] [c \<noteq> CHR ''0'']"
    using writeBit_new_byte [OF assms, of ?b] by (simp only: b)
  from write_bits_packed [OF this, of str'] obtain cs' part' where
    r: "packed (write_bits (writeBit out ?b) str') (written out) cs' part'"
    "bytes_bits cs' @ part' = (bytes_bits [] @ [c \<noteq> CHR ''0'']) @ bits_of str'"
    by blast
  from r(2) have e: "bytes_bits cs' @ part' = bits_of str"
    by (simp add: Cons bits_of_def bytes_bits_Nil)
  from packed_bits [OF r(1)] obtain payload where
    "written (write_bits (writeBit out ?b) str') = written out @ payload"
    "bytes_bits payload = (bytes_bits cs' @ part') @ replicate (8 - length part') False"
    by blast
  then show ?thesis
    unfolding Cons step e [unfolded Cons] by blast
qed

section \<open>What \<^verbatim>\<open>encode\<close> writes\<close>

lemma insert_all_keeps: "m k \<noteq> None \<Longrightarrow> insert_all m cs k \<noteq> None"
proof (induction cs arbitrary: m)
  case Nil
  then show ?case by (simp add: insert_all_def)
next
  case (Cons x cs)
  from Cons.prems have "insert_E m (fst x) (snd x) k \<noteq> None"
    by (simp add: insert_E_def)
  from Cons.IH [of "insert_E m (fst x) (snd x)", OF this] show ?case by (simp add: insert_all_def)
qed

lemma insert_all_present: "k \<in> fst ` set cs \<Longrightarrow> insert_all m cs k \<noteq> None"
proof (induction cs arbitrary: m)
  case Nil
  then show ?case by simp
next
  case (Cons x cs)
  have step: "insert_all m (x # cs) = insert_all (insert_E m (fst x) (snd x)) cs"
    by (simp add: insert_all_def)
  show ?case
  proof (cases "k = fst x")
    case True
    then have "insert_E m (fst x) (snd x) k \<noteq> None" by (simp add: insert_E_def)
    then show ?thesis unfolding step by (rule insert_all_keeps)
  next
    case False
    with Cons.prems have "k \<in> fst ` set cs" by auto
    then show ?thesis unfolding step by (rule Cons.IH)
  qed
qed

lemma codes_leaves:
  "k \<in> fst ` set (leaf_nodes t) \<Longrightarrow> k \<noteq> 257 \<Longrightarrow> k \<in> fst ` set (codes t str)"
proof (induction t str rule: codes.induct)
  case (1 c n z w str)
  show ?case
  proof (cases "z = None \<and> w = None")
    case True
    with "1.prems" show ?thesis by simp
  next
    case False
    with "1.prems"(1) consider
        (l) x where "z = Some x" "k \<in> fst ` set (leaf_nodes x)"
      | (r) y where "w = Some y" "k \<in> fst ` set (leaf_nodes y)"
      by (auto split: option.splits)
    then show ?thesis
    proof cases
      case l
      from "1.IH"(1) [OF l "1.prems"(2)] l(1) show ?thesis by auto
    next
      case r
      from "1.IH"(2) [OF r "1.prems"(2)] r(1) show ?thesis by auto
    qed
  qed
qed

lemma buildEncodingMap_present:
  assumes "k \<in> fst ` set (leaf_nodes t)" "k \<noteq> 257"
  shows "buildEncodingMap t k \<noteq> None"
  unfolding buildEncodingMap_def buildEncodingMap_rec_codes
  by (rule insert_all_present) (rule codes_leaves [OF assms])

lemma index_E_present: "m k \<noteq> None \<Longrightarrow> index_E m k = (fst (index_E m k), m)"
  by (auto simp add: index_E_def)

lemma encode_loop_present:
  assumes "\<And>c. c \<in> set input \<Longrightarrow> m (int_of_char signed_char c) \<noteq> None"
  shows "\<exists>sz'. encode_loop signed_char input m encoded sz =
    (encoded @ concat (map (\<lambda>c. fst (index_E m (int_of_char signed_char c))) input), m, sz')"
  using assms
proof (induction input arbitrary: encoded sz)
  case Nil
  show ?case by simp
next
  case (Cons c input)
  have p: "m (int_of_char signed_char c) \<noteq> None" by (rule Cons.prems) simp
  from Cons.IH [of "encoded @ fst (index_E m (int_of_char signed_char c))"
      "sz + of_nat (length (fst (index_E m (int_of_char signed_char c))))"] Cons.prems
  obtain sz' where "encode_loop signed_char input m
      (encoded @ fst (index_E m (int_of_char signed_char c)))
      (sz + of_nat (length (fst (index_E m (int_of_char signed_char c))))) =
    ((encoded @ fst (index_E m (int_of_char signed_char c))) @
       concat (map (\<lambda>c. fst (index_E m (int_of_char signed_char c))) input), m, sz')"
    by auto
  then show ?case
    using index_E_present [of m "int_of_char signed_char c", OF p] by (auto split: prod.splits)
qed

lemma encode_present:
  assumes "\<And>c. c \<in> set input \<Longrightarrow> m (int_of_char signed_char c) \<noteq> None" "m 256 \<noteq> None"
  shows "\<exists>sz'. encode signed_char input m out 0 True =
    (concat (map (\<lambda>c. fst (index_E m (int_of_char signed_char c))) input) @ fst (index_E m 256), m,
     write_bits out
       (concat (map (\<lambda>c. fst (index_E m (int_of_char signed_char c))) input) @ fst (index_E m 256)),
     sz')"
proof -
  from encode_loop_present [of input m signed_char "[]" 0] assms(1)
  obtain sz1 where "encode_loop signed_char input m [] 0 =
      ([] @ concat (map (\<lambda>c. fst (index_E m (int_of_char signed_char c))) input), m, sz1)"
    by blast
  then show ?thesis
    using index_E_present [of m 256, OF assms(2)] by (auto simp add: encode_def split: prod.splits)
qed

section \<open>Compressing and decompressing a file\<close>

lemma tally_dom: "dom (tally signed_char cs Map.empty) = int_of_char signed_char ` set cs"
  by (auto simp add: tally_def dom_def)

lemma leaf_root:
  assumes "well_formed t" "character t \<noteq> 257"
  shows "fst ` set (leaf_nodes t) = {character t}"
proof (cases t)
  case (HuffmanNode c n z w)
  with assms show ?thesis by (auto split: option.splits)
qed

lemma walk_eos_root: "character t = 256 \<Longrightarrow> walk t (Some t) bs d os = Inr (d, os)"
  by (cases bs) simp_all

lemma unc_name_huf: "unc_name (filename @ ''.huf'') \<noteq> filename @ ''.huf''"
proof
  assume "unc_name (filename @ ''.huf'') = filename @ ''.huf''"
  then have "last (unc_name (filename @ ''.huf'')) = last (filename @ ''.huf'')" by simp
  then show False by (simp add: unc_name_def)
qed

lemma huf_name: "filename @ ''.huf'' \<noteq> filename"
  by simp

text \<open>
  The container that \<^verbatim>\<open>compress\<close> leaves: the header of the frequency table, then the
  codewords of the characters and of the end-of-file symbol, filled up with zeros.
\<close>

lemma compress_container:
  assumes "fs filename = Some X"
  shows "\<exists>T t payload pad.
    hashmap_inv T \<and> set (keys T) = insert 256 (int_of_char signed_char ` set X) \<and>
    buildEncodingTree tie T = Inr t \<and> well_formed t \<and>
    fst ` set (leaf_nodes t) = set (keys T) \<and>
    compress signed_char tie fs filename =
      Inr (concat (map (\<lambda>c. codeword t (int_of_char signed_char c)) X) @ codeword t 256,
           fs(filename @ ''.huf'' \<mapsto> ''{'' @ render_entries (entries T) @ ''}'' @ payload)) \<and>
    bytes_bits payload =
      bits_of (concat (map (\<lambda>c. codeword t (int_of_char signed_char c)) X) @ codeword t 256)
      @ replicate pad False"
proof -
  let ?enc = "\<lambda>t. concat (map (\<lambda>c. codeword t (int_of_char signed_char c)) X) @ codeword t 256"
  from buildFrequencyMap_lookup [of signed_char fs filename True] assms
  obtain T where T: "buildFrequencyMap signed_char fs filename True hashmap_init = Inr T"
    and inv: "hashmap_inv T"
    and look: "lookup T = (tally signed_char X Map.empty)(256 \<mapsto> 1)"
    by (auto simp add: file_bytes_def)
  have keys: "set (keys T) = insert 256 (int_of_char signed_char ` set X)"
    by (simp add: keys_dom [OF inv] look tally_dom)
  then have ne: "keys T \<noteq> []" by auto
  from buildEncodingTree_inv [OF inv ne, of tie]
  obtain t where t: "buildEncodingTree tie T = Inr t" and wf: "well_formed t"
    and ms: "mset (leaf_nodes t) =
      mset (map (\<lambda>k. (k, case lookup T k of None \<Rightarrow> 0 | Some n \<Rightarrow> n)) (keys T))"
    by blast
  from ms have "set (leaf_nodes t) =
      set (map (\<lambda>k. (k, case lookup T k of None \<Rightarrow> 0 | Some n \<Rightarrow> n)) (keys T))"
    by (rule mset_eq_setD)
  then have leaves: "fst ` set (leaf_nodes t) = set (keys T)"
    by (simp add: image_image)
  have present: "buildEncodingMap t (int_of_char signed_char c) \<noteq> None" if "c \<in> set X" for c
    using that by (intro buildEncodingMap_present) (simp_all add: leaves keys int_of_char_not_257)
  have eos: "buildEncodingMap t 256 \<noteq> None"
    by (intro buildEncodingMap_present) (simp_all add: leaves keys)
  let ?out = "ofbitstream_open\<lparr>written := ''{'' @ render_entries (entries T) @ ''}''\<rparr>"
  from encode_present [of X "buildEncodingMap t" signed_char ?out] present eos
  obtain sz' where enc: "encode signed_char X (buildEncodingMap t) ?out 0 True =
      (?enc t, buildEncodingMap t, write_bits ?out (?enc t), sz')"
    unfolding codeword_def by blast
  have "pos_out ?out = 8" by (simp add: ofbitstream_open_def)
  from write_bits_payload [OF this, of "?enc t"]
  obtain payload pad where
    w: "written (write_bits ?out (?enc t)) = ''{'' @ render_entries (entries T) @ ''}'' @ payload"
    and bits: "bytes_bits payload = bits_of (?enc t) @ replicate pad False"
    by auto
  have input: "file_bytes (fs(filename @ ''.huf'' \<mapsto> [])) filename = X"
    using assms by (simp add: file_bytes_def)
  have header: "operator_out (written ofbitstream_open) T =
      Inr (''{'' @ render_entries (entries T) @ ''}'')"
    by (simp add: operator_out_inv [OF inv] ofbitstream_open_def)
  have "compress signed_char tie fs filename =
      Inr (?enc t, fs(filename @ ''.huf'' \<mapsto> ''{'' @ render_entries (entries T) @ ''}'' @ payload))"
    unfolding compress_def Let_def
    by (simp only: T t header input enc w sum.case prod.case fun_upd_upd)
  with inv keys t wf leaves bits show ?thesis by blast
qed

text \<open>
  C1. A file holding any bytes \<open>X\<close> (none, too) is compressed without failure, and
  \<^verbatim>\<open>compress\<close> leaves a container in \<^verbatim>\<open>filename.huf\<close>. Decompressing that container returns
  exactly \<open>X\<close>, which is also the content of the file that \<^verbatim>\<open>decompress\<close> writes, in
  every file system that holds the container, under any name that the name of the output
  file does not overwrite: the original file need not be there, \<open>X\<close> comes from the
  container alone, through the table and the tree that \<^verbatim>\<open>decompress\<close> reads and builds
  from its header. This holds whether the plain \<^verbatim>\<open>char\<close> is signed or not and for every
  way the priority queue chooses among equal counts.
\<close>

theorem compress_decompress_round_trip:
  assumes "fs filename = Some X"
  shows "\<exists>encoded fs' container.
    compress signed_char tie fs filename = Inr (encoded, fs') \<and>
    fs' (filename @ ''.huf'') = Some container \<and>
    unc_name (filename @ ''.huf'') \<noteq> filename @ ''.huf'' \<and>
    (\<forall>fs2 name. fs2 name = Some container \<longrightarrow> unc_name name \<noteq> name \<longrightarrow>
       decompress tie fs2 name = Some (Inr (X, fs2(unc_name name \<mapsto> X))))"
proof -
  from compress_container [where fs = fs and filename = filename and signed_char = signed_char
      and tie = tie, OF assms]
  obtain T t payload pad where inv: "hashmap_inv T"
    and keys: "set (keys T) = insert 256 (int_of_char signed_char ` set X)"
    and t: "buildEncodingTree tie T = Inr t" and wf: "well_formed t"
    and leaves: "fst ` set (leaf_nodes t) = set (keys T)"
    and c: "compress signed_char tie fs filename =
      Inr (concat (map (\<lambda>c. codeword t (int_of_char signed_char c)) X) @ codeword t 256,
           fs(filename @ ''.huf'' \<mapsto> ''{'' @ render_entries (entries T) @ ''}'' @ payload))"
    and bits: "bytes_bits payload =
      bits_of (concat (map (\<lambda>c. codeword t (int_of_char signed_char c)) X) @ codeword t 256)
      @ replicate pad False"
    by blast
  let ?container = "''{'' @ render_entries (entries T) @ ''}'' @ payload"
  let ?fs' = "fs(filename @ ''.huf'' \<mapsto> ?container)"
  have w: "walk t (Some t) (bytes_bits payload) [] [] = Inr (X, X)"
  proof (cases "character t = 257")
    case True
    have present: "list_all (\<lambda>k. k \<noteq> 256 \<and> buildEncodingMap t k \<noteq> None)
        (map (int_of_char signed_char) X)"
      unfolding list_all_iff
    proof
      fix k assume "k \<in> set (map (int_of_char signed_char) X)"
      then obtain c where k: "k = int_of_char signed_char c" "c \<in> set X" by auto
      then have "buildEncodingMap t k \<noteq> None"
        by (intro buildEncodingMap_present) (simp_all add: leaves keys int_of_char_not_257)
      with k show "k \<noteq> 256 \<and> buildEncodingMap t k \<noteq> None"
        by (simp add: int_of_char_not_256)
    qed
    have "buildEncodingMap t 256 \<noteq> None"
      by (intro buildEncodingMap_present) (simp_all add: leaves keys)
    then obtain s where s: "buildEncodingMap t 256 = Some s" by blast
    then have eos: "(256, s) \<in> set (codes t [])" by (rule buildEncodingMap_Some)
    have split: "bytes_bits payload =
        concat (map (\<lambda>k. bits_of (codeword t k)) (map (int_of_char signed_char) X))
        @ (bits_of s @ replicate pad False)"
      unfolding bits
      by (simp add: bits_of_def codeword_Some [OF s] map_concat comp_def)
    have "walk t (Some t) (bytes_bits payload) [] [] =
        walk t (Some t) (bits_of s @ replicate pad False)
          ([] @ map char_of_int (map (int_of_char signed_char) X))
          ([] @ map char_of_int (map (int_of_char signed_char) X))"
      unfolding split by (rule walk_symbols [OF wf True present])
    also have "\<dots> = Inr ([] @ map char_of_int (map (int_of_char signed_char) X),
        [] @ map char_of_int (map (int_of_char signed_char) X))"
      by (rule walk_eos [OF wf eos True])
    also have "map char_of_int (map (int_of_char signed_char) X) = X"
      by (simp add: comp_def char_of_int_of_char)
    finally show ?thesis by simp
  next
    case False
    from leaf_root [OF wf False] leaves keys
    have one: "insert 256 (int_of_char signed_char ` set X) = {character t}" by auto
    then have r: "character t = 256" by auto
    have "X = []"
    proof (cases X)
      case Nil
      then show ?thesis .
    next
      case (Cons x xs)
      with one r have "int_of_char signed_char x = 256" by auto
      then show ?thesis by (simp add: int_of_char_not_256)
    qed
    then show ?thesis by (simp add: walk_eos_root [OF r])
  qed
  have held: "?fs' (filename @ ''.huf'') = Some ?container"
    by simp
  have anywhere: "decompress tie fs2 name = Some (Inr (X, fs2(unc_name name \<mapsto> X)))"
    if "fs2 name = Some ?container" "unc_name name \<noteq> name" for fs2 name
    using decompress_container [where fs = fs2 and filename = name, OF inv that t]
    by (simp add: w)
  show ?thesis
  proof (intro exI conjI allI impI)
    show "compress signed_char tie fs filename =
      Inr (concat (map (\<lambda>c. codeword t (int_of_char signed_char c)) X) @ codeword t 256, ?fs')"
      by (rule c)
    show "?fs' (filename @ ''.huf'') = Some ?container"
      by (rule held)
    show "unc_name (filename @ ''.huf'') \<noteq> filename @ ''.huf''"
      by (rule unc_name_huf)
    show "decompress tie fs2 name = Some (Inr (X, fs2(unc_name name \<mapsto> X)))"
      if "fs2 name = Some ?container" "unc_name name \<noteq> name" for fs2 name
      using that by (rule anywhere)
  qed
qed

lemma buildFrequencyMap_file_aaa:
  "buildFrequencyMap True [''a.txt'' \<mapsto> ''aaa''] ''a.txt'' True hashmap_init = Inr table_aaa"
  by (simp add: table_eval file_bytes_def int_of_char_a hash_97 hash_256 table_aaa_def)

lemma write_bits_1110:
  "written (write_bits (ofbitstream_open\<lparr>written := ''{97:3, 256:1}''\<rparr>) ''1110'') =
     ''{97:3, 256:1}'' @ [CHR 0x07]"
  by (simp add: write_bits_def writeBit_def Let_def ofbitstream_open_def tellp_def SetNthBit_def
      char_of_def bit_0 bit_Suc)

lemma compress_file_aaa:
  "compress True first_candidate [''a.txt'' \<mapsto> ''aaa''] ''a.txt'' =
     Inr (''1110'', [''a.txt'' \<mapsto> ''aaa'', ''a.txt.huf'' \<mapsto> ''{97:3, 256:1}'' @ [CHR 0x07]])"
proof -
  have header: "operator_out (written ofbitstream_open) table_aaa = Inr ''{97:3, 256:1}''"
    by (simp add: operator_out_inv [OF hashmap_inv_table_aaa] render_table_aaa
        ofbitstream_open_def)
  have input: "file_bytes ([''a.txt'' \<mapsto> ''aaa'']( ''a.txt'' @ ''.huf'' \<mapsto> [])) ''a.txt'' = ''aaa''"
    by (simp add: file_bytes_def)
  have enc: "encode True ''aaa'' [256 \<mapsto> ''0'', 97 \<mapsto> ''1'']
      (ofbitstream_open\<lparr>written := ''{97:3, 256:1}''\<rparr>) 0 True =
      (''1110'', [256 \<mapsto> ''0'', 97 \<mapsto> ''1''],
       write_bits (ofbitstream_open\<lparr>written := ''{97:3, 256:1}''\<rparr>) ''1110'', 4)"
    by (simp add: encode_def index_E_def int_of_char_a)
  show ?thesis
    unfolding compress_def Let_def
    by (simp only: buildFrequencyMap_file_aaa buildEncodingTree_table_aaa buildEncodingMap_aaa
        header input enc write_bits_1110 sum.case prod.case fun_upd_upd) simp
qed

theorem compress_decompress_round_trip_witness:
  "[''a.txt'' \<mapsto> ''aaa''] ''a.txt'' = Some ''aaa'' \<and>
   compress True first_candidate [''a.txt'' \<mapsto> ''aaa''] ''a.txt'' =
     Inr (''1110'', [''a.txt'' \<mapsto> ''aaa'', ''a.txt.huf'' \<mapsto> ''{97:3, 256:1}'' @ [CHR 0x07]]) \<and>
   unc_name ''a.txt.huf'' = ''a_unc.txt'' \<and>
   decompress first_candidate [''a.txt.huf'' \<mapsto> ''{97:3, 256:1}'' @ [CHR 0x07]] ''a.txt.huf'' =
     Some (Inr (''aaa'',
       [''a.txt.huf'' \<mapsto> ''{97:3, 256:1}'' @ [CHR 0x07], ''a_unc.txt'' \<mapsto> ''aaa'']))"
proof -
  have f: "[''a.txt'' \<mapsto> ''aaa''] ''a.txt'' = Some ''aaa''" by simp
  from compress_decompress_round_trip [where fs = "[''a.txt'' \<mapsto> ''aaa'']"
      and filename = "''a.txt''" and signed_char = True and tie = first_candidate, OF f]
  obtain encoded fs' container where
    c: "compress True first_candidate [''a.txt'' \<mapsto> ''aaa''] ''a.txt'' = Inr (encoded, fs')"
    and h: "fs' (''a.txt'' @ ''.huf'') = Some container"
    and d: "\<And>fs2 name. fs2 name = Some container \<Longrightarrow> unc_name name \<noteq> name \<Longrightarrow>
      decompress first_candidate fs2 name = Some (Inr (''aaa'', fs2(unc_name name \<mapsto> ''aaa'')))"
    by blast
  from c have fs': "fs' = [''a.txt'' \<mapsto> ''aaa'', ''a.txt.huf'' \<mapsto> ''{97:3, 256:1}'' @ [CHR 0x07]]"
    by (simp add: compress_file_aaa)
  from h have container: "container = ''{97:3, 256:1}'' @ [CHR 0x07]"
    unfolding fs' by simp
  have there: "[''a.txt.huf'' \<mapsto> ''{97:3, 256:1}'' @ [CHR 0x07]] ''a.txt.huf'' = Some container"
    unfolding container by simp
  have other: "unc_name ''a.txt.huf'' \<noteq> ''a.txt.huf''"
    by (simp add: unc_name_example)
  from d [of "[''a.txt.huf'' \<mapsto> ''{97:3, 256:1}'' @ [CHR 0x07]]" "''a.txt.huf''", OF there other]
  show ?thesis
    by (simp only: f compress_file_aaa unc_name_example simp_thms)
qed

end
